theory Spec2Isabelle
  imports Main "HOL-Library.Word" "HOL-Library.AList" "HOL-Library.Sublist"
    "HOL-Library.Multiset" "HOL-Library.Product_Lexorder"
begin

unbundle bit_operations_syntax

section \<open>Go library values used by the reconciler\<close>

text \<open>
  The program is a Go command (package \<open>main\<close>, file \<open>hetzner.go\<close>) with a small
  package \<open>api\<close>.  It leans on three library types: \<open>net.IP\<close> (a byte slice),
  \<open>net.IPNet\<close> (an address with a mask) and \<open>time.Time\<close>.  The functions of these
  types that the program calls are written out here as executable functions, following
  the behaviour of the Go library: a \<open>nil\<close> slice is the empty list.
\<close>

type_synonym byte = "8 word"
type_synonym IP = "byte list"
type_synonym IPMask = "byte list"
type_synonym HardwareAddr = "byte list"

definition IPv4len :: nat where
  "IPv4len = 4"

definition IPv6len :: nat where
  "IPv6len = 16"

definition v4InV6Prefix :: "byte list" where
  "v4InV6Prefix = [0, 0, 0, 0, 0, 0, 0, 0, 0, 0, 0xff, 0xff]"

text \<open>\<open>net.IPv4(a, b, c, d)\<close>: the 16-byte form of an IPv4 address, which is also what
  \<open>net.ParseIP\<close> (called by \<open>api.IP.UnmarshalJSON\<close>) returns for dotted text.\<close>

definition IPv4 :: "byte \<Rightarrow> byte \<Rightarrow> byte \<Rightarrow> byte \<Rightarrow> IP" where
  "IPv4 a b c d = v4InV6Prefix @ [a, b, c, d]"

definition isZeros :: "byte list \<Rightarrow> bool" where
  "isZeros p = list_all (\<lambda>b. b = 0) p"

text \<open>\<open>ip.To4()\<close>: the 4-byte form, or \<open>nil\<close> when the address is not an IPv4 address.\<close>

definition To4 :: "IP \<Rightarrow> IP" where
  "To4 ip =
     (if length ip = IPv4len then ip
      else if length ip = IPv6len \<and> isZeros (take 10 ip) \<and> ip ! 10 = 0xff \<and> ip ! 11 = 0xff
        then drop 12 ip
      else [])"

text \<open>\<open>ip.Equal(x)\<close>: an IPv4 address and its 16-byte form are equal.\<close>

definition IP_Equal :: "IP \<Rightarrow> IP \<Rightarrow> bool" where
  "IP_Equal ip x =
     (if length ip = length x then ip = x
      else if length ip = IPv4len \<and> length x = IPv6len
        then take 12 x = v4InV6Prefix \<and> ip = drop 12 x
      else if length ip = IPv6len \<and> length x = IPv4len
        then take 12 ip = v4InV6Prefix \<and> drop 12 ip = x
      else False)"

subsection \<open>Text of an address\<close>

definition digit_char :: "nat \<Rightarrow> char" where
  "digit_char d = ''0123456789abcdef'' ! d"

fun uitoa :: "nat \<Rightarrow> string" where
  "uitoa n = (if n < 10 then [digit_char n] else uitoa (n div 10) @ [digit_char (n mod 10)])"

text \<open>\<open>appendHex\<close>: lower-case hexadecimal without leading zeros.\<close>

fun hex_text :: "nat \<Rightarrow> string" where
  "hex_text n = (if n < 16 then [digit_char n] else hex_text (n div 16) @ [digit_char (n mod 16)])"

text \<open>\<open>hexString\<close>: two hexadecimal digits for every byte.\<close>

definition hexString :: "byte list \<Rightarrow> string" where
  "hexString b = concat (map (\<lambda>x. [digit_char (unat x div 16), digit_char (unat x mod 16)]) b)"

fun join_with :: "string \<Rightarrow> string list \<Rightarrow> string" where
  "join_with sep [] = []"
| "join_with sep [x] = x"
| "join_with sep (x # y # ys) = x @ sep @ join_with sep (y # ys)"

text \<open>The eight 16-bit groups of a 16-byte address.\<close>

fun groups :: "byte list \<Rightarrow> nat list" where
  "groups (a # b # r) = (unat a * 256 + unat b) # groups r"
| "groups _ = []"

text \<open>The leftmost longest run of zero groups, as (start, length); the scan keeps a later
  run only when it is strictly longer, as the library's loop does.\<close>

fun longest_zero_run :: "nat list \<Rightarrow> nat \<Rightarrow> nat \<times> nat \<Rightarrow> nat \<times> nat" where
  "longest_zero_run [] i best = best"
| "longest_zero_run (g # gs) i (s, l) =
     (let n = length (takeWhile (\<lambda>x. x = 0) (g # gs))
      in if l < n then longest_zero_run gs (Suc i) (i, n)
         else longest_zero_run gs (Suc i) (s, l))"

text \<open>IPv6 text: groups in hexadecimal joined by colons, the longest run of two or more
  zero groups replaced by a double colon.\<close>

definition ip6_text :: "nat list \<Rightarrow> string" where
  "ip6_text gs =
     (case longest_zero_run gs 0 (0, 0) of
        (s, l) \<Rightarrow>
          if l \<le> 1 then join_with '':'' (map hex_text gs)
          else join_with '':'' (map hex_text (take s gs)) @ ''::'' @
               join_with '':'' (map hex_text (drop (s + l) gs)))"

definition dotted :: "byte list \<Rightarrow> string" where
  "dotted p = join_with ''.'' (map (\<lambda>b. uitoa (unat b)) p)"

text \<open>\<open>ip.String()\<close>.  This text is the key of the node table.\<close>

definition IP_String :: "IP \<Rightarrow> string" where
  "IP_String ip =
     (if length ip = 0 then ''<nil>''
      else if length (To4 ip) = IPv4len then dotted (To4 ip)
      else if length ip \<noteq> IPv6len then ''?'' @ hexString ip
      else ip6_text (groups ip))"

subsection \<open>Networks\<close>

record IPNet =
  IP :: IP
  Mask :: IPMask

fun mask_bytes :: "nat \<Rightarrow> nat \<Rightarrow> byte list" where
  "mask_bytes n 0 = []"
| "mask_bytes n (Suc l) =
     (if 8 \<le> n then 0xff # mask_bytes (n - 8) l
      else NOT (drop_bit n (0xff :: byte)) # mask_bytes 0 l)"

text \<open>\<open>net.CIDRMask(ones, bits)\<close>: \<open>nil\<close> unless \<open>bits\<close> is 32 or 128 and
  \<open>0 \<le> ones \<le> bits\<close>.\<close>

definition CIDRMask :: "int \<Rightarrow> nat \<Rightarrow> IPMask" where
  "CIDRMask ones bits =
     (if bits \<noteq> 8 * IPv4len \<and> bits \<noteq> 8 * IPv6len then []
      else if ones < 0 \<or> int bits < ones then []
      else mask_bytes (nat ones) (bits div 8))"

definition networkNumberAndMask :: "IPNet \<Rightarrow> IP \<times> IPMask" where
  "networkNumberAndMask n =
     (let ip = (if To4 (IP n) = [] then IP n else To4 (IP n))
      in if To4 (IP n) = [] \<and> length ip \<noteq> IPv6len then ([], [])
         else if length (Mask n) = IPv4len
           then (if length ip \<noteq> IPv4len then ([], []) else (ip, Mask n))
         else if length (Mask n) = IPv6len
           then (if length ip = IPv4len then (ip, drop 12 (Mask n)) else (ip, Mask n))
         else ([], []))"

text \<open>\<open>n.Contains(ip)\<close>: the masked bytes of the network number and of the address
  agree.\<close>

definition IPNet_Contains :: "IPNet \<Rightarrow> IP \<Rightarrow> bool" where
  "IPNet_Contains n ip0 =
     (case networkNumberAndMask n of
        (nn, m) \<Rightarrow>
          (let ip = (if To4 ip0 \<noteq> [] then To4 ip0 else ip0)
           in if length ip \<noteq> length nn then False
              else list_all (\<lambda>i. (nn ! i) AND (m ! i) = (ip ! i) AND (m ! i)) [0..<length ip]))"

text \<open>\<open>simpleMaskLength\<close>: the number of leading one bits when the mask is a run of ones
  followed by zeros, and \<open>None\<close> (the library's -1) otherwise.\<close>

fun leading_ones :: "nat \<Rightarrow> byte \<Rightarrow> nat \<times> byte" where
  "leading_ones 0 v = (0, v)"
| "leading_ones (Suc k) v =
     (if v AND 0x80 \<noteq> 0
      then (case leading_ones k (push_bit 1 v) of (c, r) \<Rightarrow> (Suc c, r))
      else (0, v))"

fun simpleMaskLength :: "IPMask \<Rightarrow> nat option" where
  "simpleMaskLength [] = Some 0"
| "simpleMaskLength (v # rest) =
     (if v = 0xff then map_option (\<lambda>n. n + 8) (simpleMaskLength rest)
      else (case leading_ones 8 v of
              (c, r) \<Rightarrow> if r \<noteq> 0 then None
                        else if list_all (\<lambda>b. b = 0) rest then Some c else None))"

definition IPMask_String :: "IPMask \<Rightarrow> string" where
  "IPMask_String m = (if length m = 0 then ''<nil>'' else hexString m)"

text \<open>\<open>n.String()\<close>: the address, a slash and the prefix length.\<close>

definition IPNet_String :: "IPNet \<Rightarrow> string" where
  "IPNet_String n =
     (case networkNumberAndMask n of
        (nn, m) \<Rightarrow>
          if nn = [] \<or> m = [] then ''<nil>''
          else (case simpleMaskLength m of
                  None \<Rightarrow> IP_String nn @ ''/'' @ IPMask_String m
                | Some l \<Rightarrow> IP_String nn @ ''/'' @ uitoa l))"

subsection \<open>Hardware addresses\<close>

definition hex_val :: "char \<Rightarrow> nat option" where
  "hex_val c =
     (let v = (of_char c :: nat)
      in if 48 \<le> v \<and> v \<le> 57 then Some (v - 48)
         else if 97 \<le> v \<and> v \<le> 102 then Some (v - 97 + 10)
         else if 65 \<le> v \<and> v \<le> 70 then Some (v - 65 + 10)
         else None)"

text \<open>\<open>xtoi2(s, e)\<close>: two hexadecimal digits, followed by the separator \<open>e\<close> when the
  text goes on.\<close>

definition xtoi2 :: "string \<Rightarrow> char \<Rightarrow> byte option" where
  "xtoi2 s e =
     (if 2 < length s \<and> s ! 2 \<noteq> e then None
      else (case (hex_val (s ! 0), hex_val (s ! 1)) of
              (Some h, Some l) \<Rightarrow> Some (of_nat (h * 16 + l))
            | _ \<Rightarrow> None))"

text \<open>\<open>net.ParseMAC\<close> with its error dropped, as the program calls it: 6, 8 or 20
  octets separated by colons or hyphens, or groups of four digits separated by dots;
  \<open>nil\<close> for any other text.\<close>

definition ParseMAC :: "string \<Rightarrow> HardwareAddr" where
  "ParseMAC s =
     (if length s < 14 then []
      else if s ! 2 = CHR '':'' \<or> s ! 2 = CHR ''-'' then
        (if (length s + 1) mod 3 \<noteq> 0 then []
         else let n = (length s + 1) div 3
              in if n \<noteq> 6 \<and> n \<noteq> 8 \<and> n \<noteq> 20 then []
                 else (case those (map (\<lambda>i. xtoi2 (drop (3 * i) s) (s ! 2)) [0..<n]) of
                         None \<Rightarrow> []
                       | Some hw \<Rightarrow> hw))
      else if s ! 4 = CHR ''.'' then
        (if (length s + 1) mod 5 \<noteq> 0 then []
         else let n = 2 * (length s + 1) div 5
              in if n \<noteq> 6 \<and> n \<noteq> 8 \<and> n \<noteq> 20 then []
                 else (case those (concat (map (\<lambda>i. [xtoi2 (take 2 (drop (5 * i) s)) (char_of (0 :: nat)),
                                                        xtoi2 (drop (5 * i + 2) s) (s ! 4)])
                                               [0..<n div 2])) of
                         None \<Rightarrow> []
                       | Some hw \<Rightarrow> hw))
      else [])"

subsection \<open>Dates\<close>

text \<open>A \<open>time.Time\<close> holding a calendar date at midnight UTC, which is all that
  \<open>time.Parse\<close> with the layout \<open>2006-01-02\<close> produces.  The zero value of
  \<open>time.Time\<close> is the first of January of year 1.\<close>

datatype Time = Date (year: int) (month: nat) (day: nat)

definition zero_Time :: Time where
  "zero_Time = Date 1 1 1"

definition isDigit :: "char \<Rightarrow> bool" where
  "isDigit c = (48 \<le> (of_char c :: nat) \<and> (of_char c :: nat) \<le> 57)"

fun atoi :: "string \<Rightarrow> nat \<Rightarrow> nat option" where
  "atoi [] acc = Some acc"
| "atoi (c # cs) acc = (if isDigit c then atoi cs (acc * 10 + (of_char c - 48)) else None)"

definition isLeap :: "nat \<Rightarrow> bool" where
  "isLeap y = (y mod 4 = 0 \<and> (y mod 100 \<noteq> 0 \<or> y mod 400 = 0))"

definition daysIn :: "nat \<Rightarrow> nat \<Rightarrow> nat" where
  "daysIn m y =
     (if m = 2 then (if isLeap y then 29 else 28)
      else if m = 4 \<or> m = 6 \<or> m = 9 \<or> m = 11 then 30
      else 31)"

text \<open>\<open>time.Parse(paidTimeFormat, value)\<close> for \<open>paidTimeFormat = "2006-01-02"\<close>:
  four digits, a hyphen, two digits, a hyphen, two digits and nothing else, the month
  in 1..12 and the day within the month; \<open>None\<close> is the parse error.\<close>

definition time_Parse :: "string \<Rightarrow> Time option" where
  "time_Parse v =
     (if length v \<noteq> 10 \<or> v ! 4 \<noteq> CHR ''-'' \<or> v ! 7 \<noteq> CHR ''-'' then None
      else (case (atoi (take 4 v) 0, atoi (take 2 (drop 5 v)) 0, atoi (drop 8 v) 0) of
              (Some y, Some m, Some d) \<Rightarrow>
                if m < 1 \<or> 12 < m then None
                else if d < 1 \<or> daysIn m y < d then None
                else Some (Date (int y) m d)
            | _ \<Rightarrow> None))"

subsection \<open>Panics\<close>

text \<open>A \<open>panic(msg)\<close> of the program, or the run-time panic of reading a field
  through a \<open>nil\<close> pointer.  Nothing in the program recovers from a panic.\<close>

datatype panic = Panic string | NilPointerDereference

section \<open>Package api: the raw records\<close>

text \<open>The five record types that the provider's listings are decoded into.  A Go
  \<open>int\<close> is only copied and compared here, so it is an \<open>int\<close>.\<close>

record api_Server =
  Server_ip :: IP
  Server_number :: int
  Server_name :: string
  Product :: string
  Dc :: string
  Traffic :: string
  Flatrate :: bool
  Status :: string
  Throttled :: bool
  Cancelled :: bool
  Paid_until :: string

record api_Ip =
  Ip :: IP
  Server_ip :: IP
  Server_number :: int
  Locked :: bool
  Separate_mac :: string
  Traffic_warnings :: bool
  Traffic_hourly :: int
  Traffic_daily :: int
  Traffic_monthly :: int

record api_Subnet =
  Ip :: IP
  Mask :: int
  Gateway :: IP
  Server_ip :: IP
  Server_number :: int
  Failover :: bool
  Locked :: bool
  Traffic_warnings :: bool
  Traffic_hourly :: int
  Traffic_daily :: int
  Traffic_monthly :: int

record api_Rdns =
  Ip :: IP
  Ptr :: string

record api_Failover =
  Ip :: IP
  Netmask :: string
  Server_ip :: IP
  Server_number :: int
  Active_server_ip :: IP

subsection \<open>The client\<close>

text \<open>What \<open>Client.do\<close> sees of the HTTP library: the request's method and path, the
  response's status code and body, and errors as values.  \<open>c.http.Do(req)\<close> returns a
  response pointer and an error; the field \<open>http\<close> of the client is that function.\<close>

record api_Error =
  Status :: int
  Code :: string
  Message :: string

datatype go_error = Err string | ErrorValue api_Error

record Request =
  Method :: string
  Path :: string

record Response =
  StatusCode :: int
  Body :: string

record RequestError =
  HttpReq :: string
  HttpMethod :: string
  HttpStatusCode :: int
  RootCause :: go_error

record Client =
  http :: "Request \<Rightarrow> Response option \<times> go_error option"
  baseUrl :: string
  login :: string
  password :: string

text \<open>\<open>Client.do\<close>.  \<open>decodeResponse\<close> reads JSON into a value found by reflection;
  its two uses are the parameters \<open>decodeError\<close> (into an \<open>Error\<close>) and
  \<open>decodeValue\<close> (into the caller's \<open>v\<close>, which the callers never pass as
  \<open>nil\<close>).  The statement \<open>defer res.Body.Close()\<close> reads the field \<open>Body\<close>
  of \<open>res\<close> when it is executed, before the error is looked at: with a \<open>nil\<close>
  response that is a run-time panic.  The result is the returned error, or the decoded
  value when the returned error is \<open>nil\<close>.\<close>

definition do ::
  "Client \<Rightarrow> Request \<Rightarrow> (Response \<Rightarrow> go_error + api_Error) \<Rightarrow> (Response \<Rightarrow> go_error + 'v)
     \<Rightarrow> panic + (RequestError + 'v)" where
  "do c req decodeError decodeValue =
     (case http c req of
        (None, err) \<Rightarrow> Inl NilPointerDereference
      | (Some res, err) \<Rightarrow>
          (let newRequestError = (\<lambda>cause.
                 \<lparr> HttpReq = Method req, HttpMethod = Path req,
                   HttpStatusCode = StatusCode res, RootCause = cause \<rparr>)
           in case err of
                Some e \<Rightarrow> Inr (Inl (newRequestError e))
              | None \<Rightarrow>
                  if StatusCode res \<noteq> 200 then
                    (case decodeError res of
                       Inl e \<Rightarrow> Inr (Inl (newRequestError e))
                     | Inr cause \<Rightarrow> Inr (Inl (newRequestError (ErrorValue cause))))
                  else
                    (case decodeValue res of
                       Inl e \<Rightarrow> Inr (Inl (newRequestError e))
                     | Inr v \<Rightarrow> Inr (Inr v))))"

section \<open>Nodes\<close>

text \<open>The constants \<open>KindNil\<close>, \<open>KindHost\<close>, ... are consecutive bytes from 0
  (\<open>iota\<close>); \<open>Kind_byte\<close> gives the byte, which is what the ordering compares.\<close>

datatype Kind = KindNil | KindHost | KindManagement | KindNetwork | KindVirtual | KindFailover

fun Kind_byte :: "Kind \<Rightarrow> nat" where
  "Kind_byte KindNil = 0"
| "Kind_byte KindHost = 1"
| "Kind_byte KindManagement = 2"
| "Kind_byte KindNetwork = 3"
| "Kind_byte KindVirtual = 4"
| "Kind_byte KindFailover = 5"

record Node =
  Ip :: IP
  Ptr :: string
  Separate_mac :: HardwareAddr
  Server_ip :: IP
  Subnet :: "IPNet option"
  Gateway :: IP
  Dc :: string
  Product :: string
  Server_name :: string
  Server_number :: int
  Throttled :: bool
  Status :: string
  Cancelled :: bool
  Failover :: bool
  Flatrate :: bool
  Locked :: bool
  Paid_until :: Time
  Traffic_warnings :: bool
  Traffic :: string
  Traffic_daily :: int
  Traffic_hourly :: int
  Traffic_monthly :: int
  Active_server_ip :: IP
  Kind :: Kind

text \<open>\<open>Node.Clone\<close>: a new node with every field copied.\<close>

definition Clone :: "Node \<Rightarrow> Node" where
  "Clone n =
     \<lparr> Ip = Ip n,
       Ptr = Ptr n,
       Separate_mac = Separate_mac n,
       Server_ip = Server_ip n,
       Subnet = Subnet n,
       Gateway = Gateway n,
       Dc = Dc n,
       Product = Product n,
       Server_name = Server_name n,
       Server_number = Server_number n,
       Throttled = Throttled n,
       Status = Status n,
       Cancelled = Cancelled n,
       Failover = Failover n,
       Flatrate = Flatrate n,
       Locked = Locked n,
       Paid_until = Paid_until n,
       Traffic_warnings = Traffic_warnings n,
       Traffic = Traffic n,
       Traffic_daily = Traffic_daily n,
       Traffic_hourly = Traffic_hourly n,
       Traffic_monthly = Traffic_monthly n,
       Active_server_ip = Active_server_ip n,
       Kind = Kind n \<rparr>"

text \<open>\<open>Nodes.Less\<close>, on the two nodes that the indices select.\<close>

definition node_less :: "Node \<Rightarrow> Node \<Rightarrow> bool" where
  "node_less a b =
     (if Server_number a = Server_number b then Kind_byte (Kind a) < Kind_byte (Kind b)
      else Server_number a < Server_number b)"

definition Less :: "Node list \<Rightarrow> nat \<Rightarrow> nat \<Rightarrow> bool" where
  "Less n i j = node_less (n ! i) (n ! j)"

text \<open>\<open>sort.Sort(l)\<close> rearranges the slice so that it is ordered by \<open>Less\<close>.
  The library's algorithm is not part of the program and is not stable: the order it
  gives to nodes that \<open>Less\<close> does not separate is not determined.  An insertion
  sort stands for it here; the statements below rest only on what every such sort
  does, namely that the result is a rearrangement of the argument and is ordered, and
  on no property of the order among nodes of equal server number and kind.\<close>

fun insert_node :: "Node \<Rightarrow> Node list \<Rightarrow> Node list" where
  "insert_node x [] = [x]"
| "insert_node x (y # ys) = (if node_less y x then y # insert_node x ys else x # y # ys)"

definition sort_Nodes :: "Node list \<Rightarrow> Node list" where
  "sort_Nodes l = foldr insert_node l []"

section \<open>The reconciler: getHetznerData\<close>

text \<open>
  \<open>getHetznerData\<close> first fetches the five listings and then builds the nodes; the
  model starts at the comment \<open>build nodes\<close> and takes the five decoded listings.

  The Go map \<open>nodes\<close> (from \<open>Ip.String()\<close> to \<open>*Node\<close>) is an association list
  with one entry for a key.  Each \<open>*Node\<close> stored in the map is a fresh object stored
  under one key only, so a pointer to a stored node is its key: an assignment through
  the pointer rewrites the entry of that key.  A \<open>panic\<close> of the source is the left
  value of the result.
\<close>

type_synonym nodes = "(string \<times> Node) list"

text \<open>A loop \<open>for _, e := range xs\<close> whose body may panic.\<close>

fun for_range :: "('s \<Rightarrow> 'a \<Rightarrow> panic + 's) \<Rightarrow> 'a list \<Rightarrow> 's \<Rightarrow> panic + 's" where
  "for_range body [] s = Inr s"
| "for_range body (e # es) s =
     (case body s e of Inl p \<Rightarrow> Inl p | Inr s' \<Rightarrow> for_range body es s')"

subsection \<open>Hosts\<close>

text \<open>The body of the loop over \<open>rservers\<close>.  The error of \<open>time.Parse\<close> is dropped
  and the returned time is then the zero time.\<close>

definition host_node :: "api_Server \<Rightarrow> Node" where
  "host_node e =
     (let paid_until = (case time_Parse (api_Server.Paid_until e) of
                          None \<Rightarrow> zero_Time
                        | Some t \<Rightarrow> t)
      in \<lparr> Ip = api_Server.Server_ip e,
           Ptr = [],
           Separate_mac = [],
           Server_ip = api_Server.Server_ip e,
           Subnet = None,
           Gateway = [],
           Dc = api_Server.Dc e,
           Product = api_Server.Product e,
           Server_name = api_Server.Server_name e,
           Server_number = api_Server.Server_number e,
           Throttled = api_Server.Throttled e,
           Status = api_Server.Status e,
           Cancelled = api_Server.Cancelled e,
           Failover = False,
           Flatrate = api_Server.Flatrate e,
           Locked = False,
           Paid_until = paid_until,
           Traffic_warnings = False,
           Traffic = api_Server.Traffic e,
           Traffic_daily = 0,
           Traffic_hourly = 0,
           Traffic_monthly = 0,
           Active_server_ip = [],
           Kind = KindHost \<rparr>)"

definition host_step :: "nodes \<Rightarrow> api_Server \<Rightarrow> nodes" where
  "host_step nodes e = (let n = host_node e in AList.update (IP_String (Ip n)) n nodes)"

subsection \<open>Addresses\<close>

text \<open>The body of the loop over \<open>rips\<close>.  The first part finds the node \<open>n\<close> that
  the record describes (its key), creating it when needed; the second part assigns the
  fields of the record through \<open>n\<close>.\<close>

definition ip_find :: "nodes \<Rightarrow> api_Ip \<Rightarrow> panic + (string \<times> nodes)" where
  "ip_find nodes e =
     (case map_of nodes (IP_String (api_Ip.Ip e)) of
        Some n \<Rightarrow> Inr (IP_String (api_Ip.Ip e), nodes)
      | None \<Rightarrow>
          (case map_of nodes (IP_String (api_Ip.Server_ip e)) of
             Some host \<Rightarrow>
               if \<not> IP_Equal (Ip host) (api_Ip.Ip e) then
                 (let n = (Clone host)\<lparr> Ip := api_Ip.Ip e, Kind := KindManagement \<rparr>
                  in Inr (IP_String (Ip n), AList.update (IP_String (Ip n)) n nodes))
               else Inr (IP_String (api_Ip.Server_ip e), nodes)
           | None \<Rightarrow> Inl (Panic (''no host found for '' @ IP_String (api_Ip.Ip e)))))"

definition ip_assign :: "api_Ip \<Rightarrow> Node \<Rightarrow> Node" where
  "ip_assign e n =
     n\<lparr> Locked := api_Ip.Locked e,
        Separate_mac := ParseMAC (api_Ip.Separate_mac e),
        Traffic_warnings := api_Ip.Traffic_warnings e,
        Traffic_hourly := api_Ip.Traffic_hourly e,
        Traffic_daily := api_Ip.Traffic_daily e,
        Traffic_monthly := api_Ip.Traffic_monthly e \<rparr>"

definition ip_step :: "nodes \<Rightarrow> api_Ip \<Rightarrow> panic + nodes" where
  "ip_step nodes e =
     (case ip_find nodes e of
        Inl p \<Rightarrow> Inl p
      | Inr (k, nodes') \<Rightarrow> Inr (AList.map_entry k (ip_assign e) nodes'))"

subsection \<open>Subnets\<close>

text \<open>The body of the loop over \<open>rsubnets\<close>; the state is the map and the slice
  \<open>subnets\<close> of pointers to the nodes created so far.  \<open>server\<close> is \<open>nil\<close> when
  the map has no entry for the owner's address, and \<open>server.Clone()\<close> then reads
  through a \<open>nil\<close> pointer.\<close>

definition subnet_step :: "nodes \<times> string list \<Rightarrow> api_Subnet \<Rightarrow> panic + (nodes \<times> string list)" where
  "subnet_step st e =
     (case st of
        (nodes, subnets) \<Rightarrow>
          if map_of nodes (IP_String (api_Subnet.Ip e)) \<noteq> None
          then Inl (Panic (''subnet conflicted with node '' @ IP_String (api_Subnet.Ip e)))
          else
            (case map_of nodes (IP_String (api_Subnet.Server_ip e)) of
               None \<Rightarrow> Inl NilPointerDereference
             | Some server \<Rightarrow>
                 (let n = (Clone server)
                        \<lparr> Ip := api_Subnet.Ip e,
                          Kind := KindNetwork,
                          Gateway := api_Subnet.Gateway e,
                          Failover := api_Subnet.Failover e,
                          Locked := api_Subnet.Locked e,
                          Traffic_warnings := api_Subnet.Traffic_warnings e,
                          Traffic_hourly := api_Subnet.Traffic_hourly e,
                          Traffic_daily := api_Subnet.Traffic_daily e,
                          Traffic_monthly := api_Subnet.Traffic_monthly e \<rparr>;
                      bits = (if To4 (Ip n) = [] then 8 * IPv6len else 8 * IPv4len);
                      n' = n\<lparr> Subnet := Some \<lparr> IP = Ip n, Mask = CIDRMask (api_Subnet.Mask e) bits \<rparr> \<rparr>
                  in Inr (AList.update (IP_String (Ip n')) n' nodes, subnets @ [IP_String (Ip n')]))))"

subsection \<open>Reverse DNS\<close>

text \<open>The inner loop over \<open>subnets\<close>, entered when no node has the record's address;
  falling out of it reaches the \<open>panic\<close> that ends the outer body.\<close>

fun rdns_scan :: "nodes \<Rightarrow> IP \<Rightarrow> string \<Rightarrow> string list \<Rightarrow> panic + nodes" where
  "rdns_scan nodes ip ptr [] =
     Inl (Panic (''should not reach that point: loosen record '' @ IP_String ip @ '' PTR '' @ ptr))"
| "rdns_scan nodes ip ptr (s # ss) =
     (case map_of nodes s of
        None \<Rightarrow> Inl NilPointerDereference
      | Some sn \<Rightarrow>
          (case Subnet sn of
             None \<Rightarrow> Inl NilPointerDereference
           | Some net \<Rightarrow>
               if IPNet_Contains net ip then
                 (case map_of nodes (IP_String (Server_ip sn)) of
                    None \<Rightarrow> Inl NilPointerDereference
                  | Some host \<Rightarrow>
                      (let n = (Clone host)\<lparr> Ip := ip, Ptr := ptr, Kind := KindVirtual \<rparr>
                       in Inr (AList.update (IP_String (Ip n)) n nodes)))
               else rdns_scan nodes ip ptr ss))"

definition rdns_step :: "string list \<Rightarrow> nodes \<Rightarrow> api_Rdns \<Rightarrow> panic + nodes" where
  "rdns_step subnets nodes e =
     (let ip = api_Rdns.Ip e; ptr = api_Rdns.Ptr e
      in case map_of nodes (IP_String ip) of
           Some n \<Rightarrow> Inr (AList.update (IP_String ip) (n\<lparr> Ptr := ptr \<rparr>) nodes)
         | None \<Rightarrow> rdns_scan nodes ip ptr subnets)"

subsection \<open>Failover addresses\<close>

definition failover_step :: "nodes \<Rightarrow> api_Failover \<Rightarrow> panic + nodes" where
  "failover_step nodes e =
     (case map_of nodes (IP_String (api_Failover.Ip e)) of
        None \<Rightarrow> Inl (Panic (''no subnet for failover '' @ IP_String (api_Failover.Ip e)))
      | Some n \<Rightarrow>
          if \<not> (Kind n = KindNetwork \<and> Failover n = True)
          then Inl (Panic (''no subnet for failover '' @ IP_String (api_Failover.Ip e)))
          else Inr (AList.update (IP_String (api_Failover.Ip e))
                      (n\<lparr> Kind := KindFailover,
                         Active_server_ip := api_Failover.Active_server_ip e \<rparr>) nodes))"

subsection \<open>The five passes\<close>

text \<open>The map after each loop.  Go does not fix the order in which a map is ranged
  over, so the order of the list handed to the sort is not determined by the program;
  the model takes the order in which the keys were first stored.\<close>

definition build_nodes ::
  "api_Server list \<Rightarrow> api_Ip list \<Rightarrow> api_Subnet list \<Rightarrow> api_Rdns list \<Rightarrow> api_Failover list
     \<Rightarrow> panic + nodes" where
  "build_nodes rservers rips rsubnets rrdns rfailover =
     (case for_range ip_step rips (foldl host_step [] rservers) of
        Inl p \<Rightarrow> Inl p
      | Inr nodes1 \<Rightarrow>
          (case for_range subnet_step rsubnets (nodes1, []) of
             Inl p \<Rightarrow> Inl p
           | Inr (nodes2, subnets) \<Rightarrow>
               (case for_range (rdns_step subnets) rrdns nodes2 of
                  Inl p \<Rightarrow> Inl p
                | Inr nodes3 \<Rightarrow> for_range failover_step rfailover nodes3)))"

definition getHetznerData ::
  "api_Server list \<Rightarrow> api_Ip list \<Rightarrow> api_Subnet list \<Rightarrow> api_Rdns list \<Rightarrow> api_Failover list
     \<Rightarrow> panic + Node list" where
  "getHetznerData rservers rips rsubnets rrdns rfailover =
     (case build_nodes rservers rips rsubnets rrdns rfailover of
        Inl p \<Rightarrow> Inl p
      | Inr nodes \<Rightarrow> Inr (sort_Nodes (map snd nodes)))"

section \<open>Notions used in the statements\<close>

text \<open>Records for the concrete runs: a server at 10.0.0.1, an address 10.0.0.d owned by
  10.0.0.owner, a subnet 10.c.0.0 with a prefix length, owned by 10.0.0.owner, a reverse
  DNS record and a failover record for 10.c.0.0.\<close>

definition ex_server :: api_Server where
  "ex_server = \<lparr> api_Server.Server_ip = IPv4 10 0 0 1, Server_number = 100, Server_name = ''web1'',
     Product = ''EX40'', Dc = ''FSN1-DC5'', Traffic = ''20 TB'', Flatrate = True, Status = ''ready'',
     Throttled = False, Cancelled = False, Paid_until = ''2014-01-31'' \<rparr>"

definition ex_ip :: "byte \<Rightarrow> byte \<Rightarrow> api_Ip" where
  "ex_ip d owner = \<lparr> api_Ip.Ip = IPv4 10 0 0 d, Server_ip = IPv4 10 0 0 owner, Server_number = 100,
     Locked = False, Separate_mac = [], Traffic_warnings = False, Traffic_hourly = 50,
     Traffic_daily = 50, Traffic_monthly = 8 \<rparr>"

definition ex_subnet :: "byte \<Rightarrow> int \<Rightarrow> byte \<Rightarrow> bool \<Rightarrow> api_Subnet" where
  "ex_subnet c ones owner fo = \<lparr> api_Subnet.Ip = IPv4 10 c 0 0, Mask = ones, Gateway = IPv4 10 c 0 1,
     Server_ip = IPv4 10 0 0 owner, Server_number = 100, Failover = fo, Locked = False,
     Traffic_warnings = False, Traffic_hourly = 50, Traffic_daily = 50, Traffic_monthly = 8 \<rparr>"

definition ex_rdns :: "byte \<Rightarrow> byte \<Rightarrow> api_Rdns" where
  "ex_rdns c d = \<lparr> api_Rdns.Ip = IPv4 10 c 0 d, Ptr = ''x.example.com'' \<rparr>"

definition ex_failover :: "byte \<Rightarrow> api_Failover" where
  "ex_failover c = \<lparr> api_Failover.Ip = IPv4 10 c 0 0, Netmask = ''255.255.255.255'',
     Server_ip = IPv4 10 0 0 1, Server_number = 100, Active_server_ip = IPv4 10 0 0 9 \<rparr>"

text \<open>
  After the host pass and after every later step, each node of the map is stored under
  the text of its address, a node of kind Network carries the subnet built for it, and
  the node stored under a node's server address is a node of kind Host with the same
  ancestry.  A step keeps the address, server address, subnet and ancestry of every
  stored node, and changes a kind only from Network to Failover.
\<close>

definition ancestry ::
  "Node \<Rightarrow> string \<times> string \<times> string \<times> int \<times> string \<times> bool \<times> bool \<times> bool \<times> Time \<times> string" where
  "ancestry n =
     (Product n, Dc n, Server_name n, Server_number n, Status n, Cancelled n, Flatrate n,
      Throttled n, Paid_until n, Traffic n)"

definition owned :: "(string \<rightharpoonup> Node) \<Rightarrow> Node \<Rightarrow> bool" where
  "owned m n \<longleftrightarrow>
     (\<exists>h. m (IP_String (Server_ip n)) = Some h \<and> Kind h = KindHost \<and> ancestry h = ancestry n)"

definition subnet_ok :: "Node \<Rightarrow> bool" where
  "subnet_ok n \<longleftrightarrow> (Kind n = KindNetwork \<longrightarrow> (\<exists>mk. Subnet n = Some \<lparr> IP = Ip n, Mask = mk \<rparr>))"

definition table_inv :: "(string \<rightharpoonup> Node) \<Rightarrow> bool" where
  "table_inv m \<longleftrightarrow> (\<forall>k n. m k = Some n \<longrightarrow> IP_String (Ip n) = k \<and> subnet_ok n \<and> owned m n)"

definition kept :: "(string \<rightharpoonup> Node) \<Rightarrow> (string \<rightharpoonup> Node) \<Rightarrow> bool" where
  "kept m m' \<longleftrightarrow>
     (\<forall>k n. m k = Some n \<longrightarrow>
        (\<exists>n'. m' k = Some n' \<and> ancestry n' = ancestry n \<and> Ip n' = Ip n \<and>
              Server_ip n' = Server_ip n \<and> Subnet n' = Subnet n \<and>
              (Kind n' = Kind n \<or> Kind n = KindNetwork \<and> Kind n' = KindFailover)))"

definition wf_nodes :: "nodes \<Rightarrow> bool" where
  "wf_nodes nodes \<longleftrightarrow> distinct (map fst nodes) \<and> table_inv (map_of nodes)"

definition subnets_ok :: "(string \<rightharpoonup> Node) \<Rightarrow> string list \<Rightarrow> bool" where
  "subnets_ok m subnets \<longleftrightarrow> (\<forall>s\<in>set subnets. \<exists>sn net. m s = Some sn \<and> Subnet sn = Some net)"

definition hosts_only :: "nodes \<Rightarrow> bool" where
  "hosts_only nodes \<longleftrightarrow> distinct (map fst nodes) \<and>
     (\<forall>k n. map_of nodes k = Some n \<longrightarrow>
        IP_String (Ip n) = k \<and> Server_ip n = Ip n \<and> Kind n = KindHost)"

definition moment_of ::
  "api_Ip list \<times> api_Subnet list \<times> api_Rdns list \<times> api_Failover list \<Rightarrow>
   api_Ip list \<times> api_Subnet list \<times> api_Rdns list \<times> api_Failover list \<Rightarrow> bool" where
  "moment_of a b =
     (case a of (ri', rs', rr', rf') \<Rightarrow>
        (case b of (ri, rs, rr, rf) \<Rightarrow>
           prefix ri' ri \<and> rs' = [] \<and> rr' = [] \<and> rf' = [] \<or>
           ri' = ri \<and> prefix rs' rs \<and> rr' = [] \<and> rf' = [] \<or>
           ri' = ri \<and> rs' = rs \<and> prefix rr' rr \<and> rf' = [] \<or>
           ri' = ri \<and> rs' = rs \<and> rr' = rr \<and> prefix rf' rf))"

text \<open>The node that the pointer \<open>s\<close> of the subnet list points to has a range that
  contains the address.\<close>

definition in_subnet :: "nodes \<Rightarrow> string \<Rightarrow> IP \<Rightarrow> bool" where
  "in_subnet nodes s ip =
     (case map_of nodes s of
        None \<Rightarrow> False
      | Some sn \<Rightarrow> (case Subnet sn of None \<Rightarrow> False | Some net \<Rightarrow> IPNet_Contains net ip))"

definition order_key :: "Node \<Rightarrow> int \<times> nat" where
  "order_key n = (Server_number n, Kind_byte (Kind n))"

text \<open>The identity of a node in the sense of the specification: the text of the subnet
  (\<open>n.Subnet.String()\<close>, which is \<open><nil>\<close> for a \<open>nil\<close> pointer) for a node of
  kind Network, the text of the address for every other node.\<close>

definition identity :: "Node \<Rightarrow> string" where
  "identity n =
     (if Kind n = KindNetwork
      then (case Subnet n of None \<Rightarrow> ''<nil>'' | Some net \<Rightarrow> IPNet_String net)
      else IP_String (Ip n))"

section \<open>Basic facts\<close>

lemma Clone_id: "Clone n = n"
  by (simp add: Clone_def)

lemma IP_String_IPv4:
  "IP_String (IPv4 a b c d) =
     uitoa (unat a) @ ''.'' @ uitoa (unat b) @ ''.'' @ uitoa (unat c) @ ''.'' @ uitoa (unat d)"
  by (simp add: IP_String_def IPv4_def To4_def v4InV6Prefix_def IPv4len_def IPv6len_def
      isZeros_def dotted_def del: uitoa.simps)

lemma IP_Equal_IPv4:
  "IP_Equal (IPv4 a b c d) (IPv4 a' b' c' d') \<longleftrightarrow> a = a' \<and> b = b' \<and> c = c' \<and> d = d'"
  by (simp add: IP_Equal_def IPv4_def)

lemma str_10_0_0_1: "IP_String (IPv4 10 0 0 1) = ''10.0.0.1''"
  by (simp add: IP_String_IPv4 digit_char_def)

lemma str_10_0_0_2: "IP_String (IPv4 10 0 0 2) = ''10.0.0.2''"
  by (simp add: IP_String_IPv4 digit_char_def)

section \<open>One host and one additional address\<close>

text \<open>
  Claim C6.  The listings hold one server with number 100 and main address 10.0.0.1 and
  one address record for 10.0.0.2 owned by 10.0.0.1, and nothing else; all other fields
  of the two records are arbitrary.  The result is a list of exactly two nodes: a node
  of kind Host at 10.0.0.1 and a node of kind Management at 10.0.0.2 whose product,
  datacentre and server name are the host's, which are the server record's.
\<close>

theorem one_host_one_ip:
  fixes s :: api_Server and r :: api_Ip
  defines "s' \<equiv> s\<lparr> api_Server.Server_ip := IPv4 10 0 0 1, api_Server.Server_number := 100 \<rparr>"
  defines "r' \<equiv> r\<lparr> api_Ip.Ip := IPv4 10 0 0 2, api_Ip.Server_ip := IPv4 10 0 0 1 \<rparr>"
  shows "\<exists>h m. getHetznerData [s'] [r'] [] [] [] = Inr [h, m] \<and>
     Kind h = KindHost \<and> IP_String (Ip h) = ''10.0.0.1'' \<and> Server_number h = 100 \<and>
     Kind m = KindManagement \<and> IP_String (Ip m) = ''10.0.0.2'' \<and>
     Product m = Product h \<and> Dc m = Dc h \<and> Server_name m = Server_name h \<and>
     Product h = api_Server.Product s \<and> Dc h = api_Server.Dc s \<and>
     Server_name h = api_Server.Server_name s"
  unfolding s'_def r'_def
  by (simp add: getHetznerData_def build_nodes_def host_step_def host_node_def ip_step_def
      ip_find_def ip_assign_def Clone_id str_10_0_0_1 str_10_0_0_2 IP_Equal_IPv4
      sort_Nodes_def node_less_def Let_def)

section \<open>The client and a failed transport\<close>

text \<open>
  Claim C10.  When the HTTP call hands back no response (the \<open>nil\<close> response that
  comes with a transport error), \<open>Client.do\<close> panics on the \<open>nil\<close> pointer at its
  \<open>defer\<close> statement, whatever the error is, so no \<open>RequestError\<close> is returned.
  With a response and an error it returns the \<open>RequestError\<close> built from that error.
  \<open>do\<close> returns (an error or a value) exactly when the response is not \<open>nil\<close>.
\<close>

theorem do_nil_response:
  "(fst (http c req) = None \<longrightarrow> do c req decodeError decodeValue = Inl NilPointerDereference) \<and>
   (\<forall>res e. http c req = (Some res, Some e) \<longrightarrow>
      do c req decodeError decodeValue =
        Inr (Inl \<lparr> HttpReq = Method req, HttpMethod = Path req,
                   HttpStatusCode = StatusCode res, RootCause = e \<rparr>)) \<and>
   ((\<exists>r. do c req decodeError decodeValue = Inr r) \<longleftrightarrow> fst (http c req) \<noteq> None)"
  by (cases "http c req") (auto simp: do_def Let_def split: option.splits sum.splits)

theorem do_nil_response_witness:
  "do \<lparr> http = (\<lambda>r. (None, Some (Err ''connection refused''))),
        baseUrl = ''https://robot-ws.your-server.de'', login = ''u'', password = ''p'' \<rparr>
      \<lparr> Method = ''GET'', Path = ''/server'' \<rparr>
      (\<lambda>res. Inl (Err ''EOF'')) (\<lambda>res. Inr ())
     = Inl NilPointerDereference \<and>
   do \<lparr> http = (\<lambda>r. (Some \<lparr> StatusCode = 0, Body = [] \<rparr>, Some (Err ''stopped after 10 redirects''))),
        baseUrl = ''https://robot-ws.your-server.de'', login = ''u'', password = ''p'' \<rparr>
      \<lparr> Method = ''GET'', Path = ''/server'' \<rparr>
      (\<lambda>res. Inl (Err ''EOF'')) (\<lambda>res. Inr ())
     = Inr (Inl \<lparr> HttpReq = ''GET'', HttpMethod = ''/server'', HttpStatusCode = 0,
                  RootCause = Err ''stopped after 10 redirects'' \<rparr>)"
  using do_nil_response
    [of "\<lparr> http = (\<lambda>r. (None, Some (Err ''connection refused''))),
           baseUrl = ''https://robot-ws.your-server.de'', login = ''u'', password = ''p'' \<rparr>"
        "\<lparr> Method = ''GET'', Path = ''/server'' \<rparr>"
        "\<lambda>res. Inl (Err ''EOF'')" "\<lambda>res. Inr ()"]
    do_nil_response
    [of "\<lparr> http = (\<lambda>r. (Some \<lparr> StatusCode = 0, Body = [] \<rparr>, Some (Err ''stopped after 10 redirects''))),
           baseUrl = ''https://robot-ws.your-server.de'', login = ''u'', password = ''p'' \<rparr>"
        "\<lparr> Method = ''GET'', Path = ''/server'' \<rparr>"
        "\<lambda>res. Inl (Err ''EOF'')" "\<lambda>res. Inr ()"]
  by simp

section \<open>Concrete records and their evaluation\<close>

lemma ex_strings:
  "IP_String (IPv4 10 0 0 1) = ''10.0.0.1''" "IP_String (IPv4 10 0 0 2) = ''10.0.0.2''"
  "IP_String (IPv4 10 0 0 3) = ''10.0.0.3''" "IP_String (IPv4 10 1 0 0) = ''10.1.0.0''"
  "IP_String (IPv4 10 2 0 0) = ''10.2.0.0''" "IP_String (IPv4 10 1 0 5) = ''10.1.0.5''"
  "IP_String (IPv4 10 3 0 5) = ''10.3.0.5''" "IP_String (IPv4 10 0 0 7) = ''10.0.0.7''"
  by (simp_all add: IP_String_IPv4 digit_char_def)

lemma IPv4_inject:
  "IPv4 a b c d = IPv4 a' b' c' d' \<longleftrightarrow> a = a' \<and> b = b' \<and> c = c' \<and> d = d'"
  by (simp add: IPv4_def)

lemma ex_to4: "To4 (IPv4 a b c d) = [a, b, c, d]"
  by (simp add: To4_def IPv4_def v4InV6Prefix_def IPv4len_def IPv6len_def isZeros_def)

lemma mask_bytes_24: "mask_bytes 24 4 = [0xff, 0xff, 0xff, 0]"
  by code_simp

lemma ex_mask24: "CIDRMask 24 32 = [0xff, 0xff, 0xff, 0]"
  by (simp add: CIDRMask_def IPv4len_def IPv6len_def mask_bytes_24)

lemma ex_contains:
  "IPNet_Contains \<lparr> IP = IPv4 10 1 0 0, Mask = CIDRMask 24 32 \<rparr> (IPv4 10 1 0 5)"
  "\<not> IPNet_Contains \<lparr> IP = IPv4 10 1 0 0, Mask = CIDRMask 24 32 \<rparr> (IPv4 10 3 0 5)"
  by (simp_all add: IPNet_Contains_def networkNumberAndMask_def ex_to4 ex_mask24 IPv4len_def IPv6len_def
      Let_def upt_rec)

lemmas ex_eval = host_step_def host_node_def ip_step_def ip_find_def ip_assign_def Clone_id
  ex_strings IP_Equal_IPv4 Let_def ex_server_def ex_ip_def ex_subnet_def ex_rdns_def ex_failover_def

section \<open>The invariant of the node table\<close>

lemma kept_refl: "kept m m"
  by (simp add: kept_def)

lemma kept_trans:
  assumes "kept a b" "kept b c"
  shows "kept a c"
  unfolding kept_def
proof (intro allI impI)
  fix k n assume "a k = Some n"
  with assms(1) obtain n1 where n1: "b k = Some n1" "ancestry n1 = ancestry n" "Ip n1 = Ip n"
      "Server_ip n1 = Server_ip n" "Subnet n1 = Subnet n"
      "Kind n1 = Kind n \<or> Kind n = KindNetwork \<and> Kind n1 = KindFailover"
    unfolding kept_def by blast
  from n1(1) assms(2) obtain n2 where n2: "c k = Some n2" "ancestry n2 = ancestry n1" "Ip n2 = Ip n1"
      "Server_ip n2 = Server_ip n1" "Subnet n2 = Subnet n1"
      "Kind n2 = Kind n1 \<or> Kind n1 = KindNetwork \<and> Kind n2 = KindFailover"
    unfolding kept_def by blast
  have "Kind n2 = Kind n \<or> Kind n = KindNetwork \<and> Kind n2 = KindFailover"
    using n1(6) n2(6) by auto
  with n1 n2 show "\<exists>n'. c k = Some n' \<and> ancestry n' = ancestry n \<and> Ip n' = Ip n \<and>
      Server_ip n' = Server_ip n \<and> Subnet n' = Subnet n \<and>
      (Kind n' = Kind n \<or> Kind n = KindNetwork \<and> Kind n' = KindFailover)"
    by simp
qed

lemma table_inv_add:
  assumes "table_inv m" "m k = None" "IP_String (Ip n) = k" "subnet_ok n" "owned m n"
  shows "table_inv (m(k \<mapsto> n))"
  using assms unfolding table_inv_def owned_def
  by (auto; metis option.distinct(1))

lemma kept_add: "m k = None \<Longrightarrow> kept m (m(k \<mapsto> n))"
  by (auto simp: kept_def)

lemma table_inv_modify:
  assumes "table_inv m" "m k = Some n" "Ip n' = Ip n" "Server_ip n' = Server_ip n"
    "ancestry n' = ancestry n" "Kind n' = Kind n \<or> Kind n = KindNetwork \<and> Kind n' = KindFailover" "subnet_ok n'"
  shows "table_inv (m(k \<mapsto> n'))"
  unfolding table_inv_def owned_def
proof (intro allI impI)
  fix k' x assume a: "(m(k \<mapsto> n')) k' = Some x"
  have own: "\<And>y. (\<exists>k. m k = Some y) \<Longrightarrow> \<exists>h. (m(k \<mapsto> n')) (IP_String (Server_ip y)) = Some h \<and> Kind h = KindHost \<and> ancestry h = ancestry y"
  proof -
    fix y assume "\<exists>k. m k = Some y"
    then obtain h where h: "m (IP_String (Server_ip y)) = Some h" "Kind h = KindHost" "ancestry h = ancestry y"
      using assms(1) unfolding table_inv_def owned_def by blast
    show "\<exists>h. (m(k \<mapsto> n')) (IP_String (Server_ip y)) = Some h \<and> Kind h = KindHost \<and> ancestry h = ancestry y"
    proof (cases "IP_String (Server_ip y) = k")
      case True
      with h assms(2) have "h = n" by simp
      with h assms(5,6) True show ?thesis by auto
    next
      case False
      with h show ?thesis by auto
    qed
  qed
  show "IP_String (Ip x) = k' \<and> subnet_ok x \<and>
        (\<exists>h. (m(k \<mapsto> n')) (IP_String (Server_ip x)) = Some h \<and> Kind h = KindHost \<and> ancestry h = ancestry x)"
  proof (cases "k' = k")
    case True
    with a have x: "x = n'" by simp
    have "IP_String (Ip n) = k" using assms(1,2) unfolding table_inv_def by blast
    moreover from own[of n] assms(2) have "\<exists>h. (m(k \<mapsto> n')) (IP_String (Server_ip n)) = Some h \<and> Kind h = KindHost \<and> ancestry h = ancestry n" by blast
    ultimately show ?thesis using x True assms(3,4,5,7) by simp
  next
    case False
    with a have mx: "m k' = Some x" by simp
    then have "IP_String (Ip x) = k'" "subnet_ok x" using assms(1) unfolding table_inv_def by blast+
    moreover from own[of x] mx have "\<exists>h. (m(k \<mapsto> n')) (IP_String (Server_ip x)) = Some h \<and> Kind h = KindHost \<and> ancestry h = ancestry x" by blast
    ultimately show ?thesis by simp
  qed
qed

lemma kept_modify:
  assumes "m k = Some n" "Ip n' = Ip n" "Server_ip n' = Server_ip n" "Subnet n' = Subnet n"
    "ancestry n' = ancestry n" "Kind n' = Kind n \<or> Kind n = KindNetwork \<and> Kind n' = KindFailover"
  shows "kept m (m(k \<mapsto> n'))"
  using assms by (auto simp: kept_def)

lemma ip_assign_frame:
  "Ip (ip_assign e n) = Ip n" "Server_ip (ip_assign e n) = Server_ip n"
  "Subnet (ip_assign e n) = Subnet n" "Kind (ip_assign e n) = Kind n"
  "ancestry (ip_assign e n) = ancestry n"
  by (simp_all add: ip_assign_def ancestry_def)

lemma subnet_ok_ip_assign: "subnet_ok (ip_assign e n) = subnet_ok n"
  by (simp add: subnet_ok_def ip_assign_frame)

lemma subnets_ok_kept: "kept m m' \<Longrightarrow> subnets_ok m subnets \<Longrightarrow> subnets_ok m' subnets"
  unfolding kept_def subnets_ok_def by (metis)

lemma map_of_map_entry_Some:
  "map_of nodes k = Some n \<Longrightarrow> map_of (AList.map_entry k f nodes) = (map_of nodes)(k \<mapsto> f n)"
  by (simp add: map_of_map_entry)

lemma owned_clone:
  assumes "table_inv m" "m k = Some host" "Server_ip n = Server_ip host" "ancestry n = ancestry host"
  shows "owned m n"
  using assms unfolding table_inv_def owned_def by metis

lemma ip_find_wf:
  assumes "wf_nodes nodes" "ip_find nodes e = Inr (k, nodes')"
  shows "wf_nodes nodes' \<and> kept (map_of nodes) (map_of nodes') \<and> (\<exists>n. map_of nodes' k = Some n)"
proof (cases "map_of nodes (IP_String (api_Ip.Ip e))")
  case (Some n)
  with assms show ?thesis by (simp add: ip_find_def kept_refl)
next
  case None
  show ?thesis
  proof (cases "map_of nodes (IP_String (api_Ip.Server_ip e))")
    case N2: None
    with None assms show ?thesis by (simp add: ip_find_def)
  next
    case (Some host)
    show ?thesis
    proof (cases "IP_Equal (Ip host) (api_Ip.Ip e)")
      case True
      with None Some assms show ?thesis by (simp add: ip_find_def kept_refl)
    next
      case False
      let ?n = "host\<lparr> Ip := api_Ip.Ip e, Kind := KindManagement \<rparr>"
      from None Some False assms(2)
      have k: "k = IP_String (api_Ip.Ip e)" and n': "nodes' = AList.update k ?n nodes"
        by (auto simp: ip_find_def Clone_id Let_def)
      have inv: "table_inv (map_of nodes)" and dist: "distinct (map fst nodes)"
        using assms(1) by (simp_all add: wf_nodes_def)
      have "owned (map_of nodes) ?n"
        by (rule owned_clone[OF inv Some]) (simp_all add: ancestry_def)
      then have "table_inv ((map_of nodes)(k \<mapsto> ?n))"
        using None k by (intro table_inv_add[OF inv]) (simp_all add: subnet_ok_def)
      then show ?thesis
        using None k n' dist by (simp add: wf_nodes_def update_conv' distinct_update kept_add)
    qed
  qed
qed

lemma ip_step_wf:
  assumes "wf_nodes nodes" "ip_step nodes e = Inr nodes'"
  shows "wf_nodes nodes' \<and> kept (map_of nodes) (map_of nodes')"
proof -
  from assms(2) obtain k nodes1 where f: "ip_find nodes e = Inr (k, nodes1)"
    and n': "nodes' = AList.map_entry k (ip_assign e) nodes1"
    by (auto simp: ip_step_def split: sum.splits)
  from ip_find_wf[OF assms(1) f] obtain n where w1: "wf_nodes nodes1"
    and k1: "kept (map_of nodes) (map_of nodes1)" and n: "map_of nodes1 k = Some n" by blast
  have m: "map_of nodes' = (map_of nodes1)(k \<mapsto> ip_assign e n)"
    using n n' by (simp add: map_of_map_entry_Some)
  have "table_inv ((map_of nodes1)(k \<mapsto> ip_assign e n))"
  proof (rule table_inv_modify[where n = n])
    show "table_inv (map_of nodes1)" using w1 by (simp add: wf_nodes_def)
    show "subnet_ok (ip_assign e n)"
      using w1 n by (simp add: subnet_ok_ip_assign wf_nodes_def table_inv_def)
  qed (simp_all add: ip_assign_frame n)
  moreover have "kept (map_of nodes1) ((map_of nodes1)(k \<mapsto> ip_assign e n))"
    by (rule kept_modify[where n = n]) (simp_all add: ip_assign_frame n)
  ultimately show ?thesis
    using w1 k1 m n' by (auto simp: wf_nodes_def distinct_map_entry intro: kept_trans)
qed

lemma subnet_step_wf:
  assumes "wf_nodes nodes" "subnets_ok (map_of nodes) subnets"
    "subnet_step (nodes, subnets) e = Inr (nodes', subnets')"
  shows "wf_nodes nodes' \<and> kept (map_of nodes) (map_of nodes') \<and> subnets_ok (map_of nodes') subnets'"
proof -
  let ?k = "IP_String (api_Subnet.Ip e)"
  from assms(3) have None: "map_of nodes ?k = None"
    by (auto simp: subnet_step_def split: if_splits)
  with assms(3) obtain server where Some: "map_of nodes (IP_String (api_Subnet.Server_ip e)) = Some server"
    by (auto simp: subnet_step_def split: option.splits)
  define n where "n = server
                        \<lparr> Ip := api_Subnet.Ip e,
                          Kind := KindNetwork,
                          Gateway := api_Subnet.Gateway e,
                          Failover := api_Subnet.Failover e,
                          Locked := api_Subnet.Locked e,
                          Traffic_warnings := api_Subnet.Traffic_warnings e,
                          Traffic_hourly := api_Subnet.Traffic_hourly e,
                          Traffic_daily := api_Subnet.Traffic_daily e,
                          Traffic_monthly := api_Subnet.Traffic_monthly e,
                          Subnet := Some \<lparr> IP = api_Subnet.Ip e, Mask = CIDRMask (api_Subnet.Mask e)
                             (if To4 (api_Subnet.Ip e) = [] then 8 * IPv6len else 8 * IPv4len) \<rparr> \<rparr>"
  from None Some assms(3) have n': "nodes' = AList.update ?k n nodes" and s': "subnets' = subnets @ [?k]"
    by (auto simp: subnet_step_def Clone_id Let_def n_def)
  have inv: "table_inv (map_of nodes)" and dist: "distinct (map fst nodes)"
    using assms(1) by (simp_all add: wf_nodes_def)
  have "owned (map_of nodes) n"
    by (rule owned_clone[OF inv Some]) (simp_all add: ancestry_def n_def)
  then have ti: "table_inv ((map_of nodes)(?k \<mapsto> n))"
    using None by (intro table_inv_add[OF inv]) (simp_all add: subnet_ok_def n_def)
  have kp: "kept (map_of nodes) ((map_of nodes)(?k \<mapsto> n))"
    using None by (rule kept_add)
  have "subnets_ok ((map_of nodes)(?k \<mapsto> n)) subnets"
    using subnets_ok_kept[OF kp assms(2)] .
  then have "subnets_ok ((map_of nodes)(?k \<mapsto> n)) (subnets @ [?k])"
    by (auto simp: subnets_ok_def n_def)
  with ti kp show ?thesis
    using n' s' dist by (simp add: wf_nodes_def update_conv' distinct_update)
qed

lemma rdns_scan_wf:
  assumes "wf_nodes nodes" "map_of nodes (IP_String ip) = None" "rdns_scan nodes ip ptr ss = Inr nodes'"
  shows "wf_nodes nodes' \<and> kept (map_of nodes) (map_of nodes')"
  using assms(3)
proof (induction ss)
  case Nil
  then show ?case by simp
next
  case (Cons s ss)
  show ?case
  proof (cases "\<exists>sn net. map_of nodes s = Some sn \<and> Subnet sn = Some net \<and> IPNet_Contains net ip")
    case False
    with Cons.prems have "rdns_scan nodes ip ptr ss = Inr nodes'"
      by (auto split: option.splits if_splits)
    then show ?thesis by (rule Cons.IH)
  next
    case True
    then obtain sn net where sn: "map_of nodes s = Some sn" "Subnet sn = Some net" "IPNet_Contains net ip"
      by blast
    with Cons.prems obtain host where host: "map_of nodes (IP_String (Server_ip sn)) = Some host"
      by (auto split: option.splits)
    let ?n = "host\<lparr> Ip := ip, Ptr := ptr, Kind := KindVirtual \<rparr>"
    from sn host Cons.prems have n': "nodes' = AList.update (IP_String ip) ?n nodes"
      by (simp add: Clone_id Let_def)
    have inv: "table_inv (map_of nodes)" and dist: "distinct (map fst nodes)"
      using assms(1) by (simp_all add: wf_nodes_def)
    have "owned (map_of nodes) ?n"
      by (rule owned_clone[OF inv host]) (simp_all add: ancestry_def)
    then have "table_inv ((map_of nodes)(IP_String ip \<mapsto> ?n))"
      using assms(2) by (intro table_inv_add[OF inv]) (simp_all add: subnet_ok_def)
    moreover have "kept (map_of nodes) ((map_of nodes)(IP_String ip \<mapsto> ?n))"
      using assms(2) by (rule kept_add)
    moreover have "map_of nodes' = (map_of nodes)(IP_String ip \<mapsto> ?n)"
      unfolding n' by (rule update_conv')
    moreover have "distinct (map fst nodes')"
      unfolding n' using dist by (rule distinct_update)
    ultimately show ?thesis
      unfolding wf_nodes_def by metis
  qed
qed

lemma rdns_step_wf:
  assumes "wf_nodes nodes" "rdns_step subnets nodes e = Inr nodes'"
  shows "wf_nodes nodes' \<and> kept (map_of nodes) (map_of nodes')"
proof (cases "map_of nodes (IP_String (api_Rdns.Ip e))")
  case None
  with assms(2) have "rdns_scan nodes (api_Rdns.Ip e) (api_Rdns.Ptr e) subnets = Inr nodes'"
    by (simp add: rdns_step_def)
  from rdns_scan_wf[OF assms(1) None this] show ?thesis .
next
  case (Some n)
  let ?n = "n\<lparr> Ptr := api_Rdns.Ptr e \<rparr>"
  from Some assms(2) have n': "nodes' = AList.update (IP_String (api_Rdns.Ip e)) ?n nodes"
    by (simp add: rdns_step_def)
  have inv: "table_inv (map_of nodes)" and dist: "distinct (map fst nodes)"
    using assms(1) by (simp_all add: wf_nodes_def)
  have "subnet_ok n" using inv Some by (simp add: table_inv_def)
  then have "table_inv ((map_of nodes)(IP_String (api_Rdns.Ip e) \<mapsto> ?n))"
    using inv Some by (intro table_inv_modify[where n = n]) (simp_all add: ancestry_def subnet_ok_def)
  moreover have "kept (map_of nodes) ((map_of nodes)(IP_String (api_Rdns.Ip e) \<mapsto> ?n))"
    using Some by (intro kept_modify[where n = n]) (simp_all add: ancestry_def)
  ultimately show ?thesis
    using n' dist by (simp add: wf_nodes_def update_conv' distinct_update)
qed

lemma failover_step_wf:
  assumes "wf_nodes nodes" "failover_step nodes e = Inr nodes'"
  shows "wf_nodes nodes' \<and> kept (map_of nodes) (map_of nodes')"
proof -
  let ?k = "IP_String (api_Failover.Ip e)"
  from assms(2) obtain n where Some: "map_of nodes ?k = Some n" and kn: "Kind n = KindNetwork"
    by (auto simp: failover_step_def split: option.splits if_splits)
  let ?n = "n\<lparr> Kind := KindFailover, Active_server_ip := api_Failover.Active_server_ip e \<rparr>"
  from Some assms(2) have n': "nodes' = AList.update ?k ?n nodes"
    by (auto simp: failover_step_def split: if_splits)
  have inv: "table_inv (map_of nodes)" and dist: "distinct (map fst nodes)"
    using assms(1) by (simp_all add: wf_nodes_def)
  have "table_inv ((map_of nodes)(?k \<mapsto> ?n))"
    using kn inv Some by (intro table_inv_modify[where n = n]) (simp_all add: ancestry_def subnet_ok_def)
  moreover have "kept (map_of nodes) ((map_of nodes)(?k \<mapsto> ?n))"
    using kn Some by (intro kept_modify[where n = n]) (simp_all add: ancestry_def)
  ultimately show ?thesis
    using n' dist by (simp add: wf_nodes_def update_conv' distinct_update)
qed

lemma for_range_append:
  "for_range body (xs @ ys) s =
     (case for_range body xs s of Inl p \<Rightarrow> Inl p | Inr s' \<Rightarrow> for_range body ys s')"
  by (induction xs arbitrary: s) (auto split: sum.splits)

lemma for_range_appendD:
  "for_range body (xs @ ys) s = Inr s' \<Longrightarrow>
     \<exists>s1. for_range body xs s = Inr s1 \<and> for_range body ys s1 = Inr s'"
  by (simp add: for_range_append split: sum.splits)

lemma host_node_frame:
  "Ip (host_node e) = api_Server.Server_ip e" "Server_ip (host_node e) = api_Server.Server_ip e"
  "Kind (host_node e) = KindHost" "Subnet (host_node e) = None"
  by (simp_all add: host_node_def Let_def)

lemma hosts_only_step: "hosts_only nodes \<Longrightarrow> hosts_only (host_step nodes e)"
  by (auto simp: hosts_only_def host_step_def Let_def distinct_update update_conv' host_node_frame)

lemma hosts_only_foldl: "hosts_only nodes \<Longrightarrow> hosts_only (foldl host_step nodes es)"
  by (induction es arbitrary: nodes) (simp_all add: hosts_only_step)

lemma hosts_only_wf: "hosts_only nodes \<Longrightarrow> wf_nodes nodes"
  unfolding hosts_only_def wf_nodes_def table_inv_def owned_def subnet_ok_def
  by (auto; metis)

lemma host_pass_wf: "wf_nodes (foldl host_step [] rservers)"
  by (rule hosts_only_wf, rule hosts_only_foldl) (simp add: hosts_only_def)

lemma ip_pass_wf:
  "wf_nodes nodes \<Longrightarrow> for_range ip_step es nodes = Inr nodes' \<Longrightarrow>
     wf_nodes nodes' \<and> kept (map_of nodes) (map_of nodes')"
proof (induction es arbitrary: nodes)
  case Nil
  then show ?case by (simp add: kept_refl)
next
  case (Cons e es)
  from Cons.prems(2) obtain n1 where s: "ip_step nodes e = Inr n1" and r: "for_range ip_step es n1 = Inr nodes'"
    by (auto split: sum.splits)
  from ip_step_wf[OF Cons.prems(1) s] Cons.IH[OF _ r] show ?case
    by (blast intro: kept_trans)
qed

lemma subnet_pass_wf:
  "wf_nodes nodes \<Longrightarrow> subnets_ok (map_of nodes) subnets \<Longrightarrow>
   for_range subnet_step es (nodes, subnets) = Inr (nodes', subnets') \<Longrightarrow>
     wf_nodes nodes' \<and> kept (map_of nodes) (map_of nodes') \<and> subnets_ok (map_of nodes') subnets'"
proof (induction es arbitrary: nodes subnets)
  case Nil
  then show ?case by (simp add: kept_refl)
next
  case (Cons e es)
  from Cons.prems(3) obtain n1 s1 where s: "subnet_step (nodes, subnets) e = Inr (n1, s1)"
    and r: "for_range subnet_step es (n1, s1) = Inr (nodes', subnets')"
    by (auto split: sum.splits)
  from subnet_step_wf[OF Cons.prems(1,2) s] Cons.IH[OF _ _ r] show ?case
    by (blast intro: kept_trans)
qed

lemma rdns_pass_wf:
  "wf_nodes nodes \<Longrightarrow> for_range (rdns_step subnets) es nodes = Inr nodes' \<Longrightarrow>
     wf_nodes nodes' \<and> kept (map_of nodes) (map_of nodes')"
proof (induction es arbitrary: nodes)
  case Nil
  then show ?case by (simp add: kept_refl)
next
  case (Cons e es)
  from Cons.prems(2) obtain n1 where s: "rdns_step subnets nodes e = Inr n1"
    and r: "for_range (rdns_step subnets) es n1 = Inr nodes'"
    by (auto split: sum.splits)
  from rdns_step_wf[OF Cons.prems(1) s] Cons.IH[OF _ r] show ?case
    by (blast intro: kept_trans)
qed

lemma failover_pass_wf:
  "wf_nodes nodes \<Longrightarrow> for_range failover_step es nodes = Inr nodes' \<Longrightarrow>
     wf_nodes nodes' \<and> kept (map_of nodes) (map_of nodes')"
proof (induction es arbitrary: nodes)
  case Nil
  then show ?case by (simp add: kept_refl)
next
  case (Cons e es)
  from Cons.prems(2) obtain n1 where s: "failover_step nodes e = Inr n1"
    and r: "for_range failover_step es n1 = Inr nodes'"
    by (auto split: sum.splits)
  from failover_step_wf[OF Cons.prems(1) s] Cons.IH[OF _ r] show ?case
    by (blast intro: kept_trans)
qed

text \<open>The stages of a successful run.\<close>

lemma build_nodes_stages:
  assumes "build_nodes rservers rips rsubnets rrdns rfailover = Inr nodes"
  obtains nodes1 nodes2 subnets nodes3 where
    "for_range ip_step rips (foldl host_step [] rservers) = Inr nodes1"
    "for_range subnet_step rsubnets (nodes1, []) = Inr (nodes2, subnets)"
    "for_range (rdns_step subnets) rrdns nodes2 = Inr nodes3"
    "for_range failover_step rfailover nodes3 = Inr nodes"
  using assms by (auto simp: build_nodes_def split: sum.splits)

lemma build_nodes_wf:
  assumes "build_nodes rservers rips rsubnets rrdns rfailover = Inr nodes"
  shows "wf_nodes nodes"
proof -
  from assms obtain nodes1 nodes2 subnets nodes3 where
    1: "for_range ip_step rips (foldl host_step [] rservers) = Inr nodes1" and
    2: "for_range subnet_step rsubnets (nodes1, []) = Inr (nodes2, subnets)" and
    3: "for_range (rdns_step subnets) rrdns nodes2 = Inr nodes3" and
    4: "for_range failover_step rfailover nodes3 = Inr nodes"
    by (rule build_nodes_stages)
  have w1: "wf_nodes nodes1" using ip_pass_wf[OF host_pass_wf 1] by simp
  have w2: "wf_nodes nodes2" using subnet_pass_wf[OF w1 _ 2] by (simp add: subnets_ok_def)
  have w3: "wf_nodes nodes3" using rdns_pass_wf[OF w2 3] by simp
  show ?thesis using failover_pass_wf[OF w3 4] by simp
qed

lemma set_insert_node: "set (insert_node x l) = insert x (set l)"
  by (induction l) auto

lemma set_sort_Nodes: "set (sort_Nodes l) = set l"
  by (induction l) (simp_all add: sort_Nodes_def set_insert_node)

lemma output_owned:
  assumes "getHetznerData rservers rips rsubnets rrdns rfailover = Inr l"
  shows "\<forall>n\<in>set l. Kind n \<noteq> KindHost \<longrightarrow>
           (\<exists>h\<in>set l. Kind h = KindHost \<and> IP_String (Ip h) = IP_String (Server_ip n) \<and>
                       ancestry h = ancestry n)"
proof (intro ballI impI)
  fix n assume n: "n \<in> set l" "Kind n \<noteq> KindHost"
  from assms obtain nodes where b: "build_nodes rservers rips rsubnets rrdns rfailover = Inr nodes"
    and l: "l = sort_Nodes (map snd nodes)"
    by (auto simp: getHetznerData_def split: sum.splits)
  from build_nodes_wf[OF b] have dist: "distinct (map fst nodes)" and inv: "table_inv (map_of nodes)"
    by (simp_all add: wf_nodes_def)
  from n l obtain k where "(k, n) \<in> set nodes" by (auto simp: set_sort_Nodes)
  with dist have "map_of nodes k = Some n" by simp
  with inv obtain h where h: "map_of nodes (IP_String (Server_ip n)) = Some h" "Kind h = KindHost"
      "ancestry h = ancestry n"
    unfolding table_inv_def owned_def by blast
  from h(1) have "(IP_String (Server_ip n), h) \<in> set nodes" by (rule map_of_SomeD)
  then have "h \<in> set l" unfolding l set_sort_Nodes by force
  moreover from h(1) inv have "IP_String (Ip h) = IP_String (Server_ip n)"
    unfolding table_inv_def by blast
  ultimately show "\<exists>h\<in>set l. Kind h = KindHost \<and> IP_String (Ip h) = IP_String (Server_ip n) \<and>
                       ancestry h = ancestry n"
    using h by blast
qed

section \<open>The failover pass\<close>

lemma build_nodes_failover_append:
  "build_nodes rservers rips rsubnets rrdns (pre @ post) =
     (case build_nodes rservers rips rsubnets rrdns pre of
        Inl p \<Rightarrow> Inl p
      | Inr nodes \<Rightarrow> for_range failover_step post nodes)"
  by (simp add: build_nodes_def for_range_append split: sum.splits prod.splits)

text \<open>
  Claim C4.  \<open>nodes\<close> is the map when a failover record \<open>e\<close> is reached: the
  first four passes and the failover records before \<open>e\<close> have run.  If no node is
  stored under the address of \<open>e\<close>, or the node stored there is not of kind Network
  with its failover flag set, the run ends in the panic \<open>no subnet for failover\<close>,
  whatever records follow: the record is never skipped.  Otherwise the node becomes a
  node of kind Failover whose active server address is the record's, and nothing else
  changes.
\<close>

theorem failover_pass:
  assumes "build_nodes rservers rips rsubnets rrdns pre = Inr nodes"
  shows "(\<not> (\<exists>n. map_of nodes (IP_String (api_Failover.Ip e)) = Some n \<and> Kind n = KindNetwork \<and> Failover n) \<longrightarrow>
            getHetznerData rservers rips rsubnets rrdns (pre @ e # post) =
              Inl (Panic (''no subnet for failover '' @ IP_String (api_Failover.Ip e)))) \<and>
         (\<forall>n. map_of nodes (IP_String (api_Failover.Ip e)) = Some n \<and> Kind n = KindNetwork \<and> Failover n \<longrightarrow>
            build_nodes rservers rips rsubnets rrdns (pre @ [e]) =
              Inr (AList.update (IP_String (api_Failover.Ip e))
                     (n\<lparr> Kind := KindFailover, Active_server_ip := api_Failover.Active_server_ip e \<rparr>) nodes))"
  using assms
  by (auto simp: getHetznerData_def build_nodes_failover_append failover_step_def split: option.splits)

theorem failover_pass_witness:
  "getHetznerData [ex_server] [] [ex_subnet 2 32 1 False] [] [ex_failover 2]
     = Inl (Panic ''no subnet for failover 10.2.0.0'') \<and>
   (\<exists>nodes n. build_nodes [ex_server] [] [ex_subnet 2 32 1 True] [] [] = Inr nodes \<and>
      map_of nodes ''10.2.0.0'' = Some n \<and> Kind n = KindNetwork \<and>
      build_nodes [ex_server] [] [ex_subnet 2 32 1 True] [] [ex_failover 2] =
        Inr (AList.update ''10.2.0.0''
               (n\<lparr> Kind := KindFailover, Active_server_ip := IPv4 10 0 0 9 \<rparr>) nodes))"
proof -
  have a: "\<exists>nodes n. build_nodes [ex_server] [] [ex_subnet 2 32 1 False] [] [] = Inr nodes \<and>
      map_of nodes ''10.2.0.0'' = Some n \<and> \<not> Failover n"
    by (simp add: build_nodes_def subnet_step_def ex_eval)
  have b: "\<exists>nodes n. build_nodes [ex_server] [] [ex_subnet 2 32 1 True] [] [] = Inr nodes \<and>
      map_of nodes ''10.2.0.0'' = Some n \<and> Kind n = KindNetwork \<and> Failover n"
    by (simp add: build_nodes_def subnet_step_def ex_eval)
  from a obtain nodes n where 1: "build_nodes [ex_server] [] [ex_subnet 2 32 1 False] [] [] = Inr nodes"
    "map_of nodes ''10.2.0.0'' = Some n" "\<not> Failover n" by blast
  from b obtain nodes' n' where 2: "build_nodes [ex_server] [] [ex_subnet 2 32 1 True] [] [] = Inr nodes'"
    "map_of nodes' ''10.2.0.0'' = Some n'" "Kind n' = KindNetwork" "Failover n'" by blast
  have k: "IP_String (api_Failover.Ip (ex_failover 2)) = ''10.2.0.0''"
    "api_Failover.Active_server_ip (ex_failover 2) = IPv4 10 0 0 9"
    by (simp_all add: ex_failover_def ex_strings)
  from failover_pass[OF 1(1), of "ex_failover 2" "[]"] 1(2,3)
  have "getHetznerData [ex_server] [] [ex_subnet 2 32 1 False] [] [ex_failover 2]
     = Inl (Panic ''no subnet for failover 10.2.0.0'')"
    by (simp add: k)
  moreover from failover_pass[OF 2(1), of "ex_failover 2" "[]"] 2(2,3,4)
  have "build_nodes [ex_server] [] [ex_subnet 2 32 1 True] [] [ex_failover 2] =
        Inr (AList.update ''10.2.0.0''
               (n'\<lparr> Kind := KindFailover, Active_server_ip := IPv4 10 0 0 9 \<rparr>) nodes')"
    by (simp add: k)
  ultimately show ?thesis using 2 by blast
qed

section \<open>The address pass and the owner of an address\<close>

lemma To4_mapped:
  assumes "length x = 16" "take 12 x = v4InV6Prefix"
  shows "To4 x = drop 12 x"
proof -
  have "take 10 x = take 10 (take 12 x)" by simp
  then have z: "isZeros (take 10 x)"
    unfolding assms(2) by (simp add: v4InV6Prefix_def isZeros_def)
  have "x ! 10 = take 12 x ! 10" "x ! 11 = take 12 x ! 11" by simp_all
  then have "x ! 10 = 0xff" "x ! 11 = 0xff"
    unfolding assms(2) by (simp_all add: v4InV6Prefix_def)
  with z assms(1) show ?thesis by (simp add: To4_def IPv4len_def IPv6len_def)
qed

lemma IP_String_mapped:
  assumes "length x = 16" "take 12 x = v4InV6Prefix"
  shows "IP_String x = IP_String (drop 12 x)"
proof -
  have t: "To4 x = drop 12 x" using assms by (rule To4_mapped)
  have l: "length (drop 12 x) = 4" using assms(1) by simp
  then have t4: "To4 (drop 12 x) = drop 12 x" by (simp add: To4_def IPv4len_def)
  have "IP_String x = dotted (drop 12 x)"
    using assms(1) l by (simp add: IP_String_def t IPv4len_def)
  moreover have "IP_String (drop 12 x) = dotted (drop 12 x)"
    using l by (simp add: IP_String_def t4 IPv4len_def)
  ultimately show ?thesis by simp
qed

lemma IP_Equal_String: "IP_Equal a b \<Longrightarrow> IP_String a = IP_String b"
  by (auto simp: IP_Equal_def IPv4len_def IPv6len_def IP_String_mapped split: if_splits)

lemma update_new: "map_of al k = None \<Longrightarrow> AList.update k v al = al @ [(k, v)]"
  by (induction al) (auto split: if_splits)

lemma map_entry_new:
  "map_of al k = None \<Longrightarrow> AList.map_entry k f (al @ [(k, v)]) = al @ [(k, f v)]"
  by (induction al) (auto split: if_splits)

lemma case_sum_id: "(case x of Inl p \<Rightarrow> Inl p | Inr n \<Rightarrow> Inr n) = x"
  by (cases x) simp_all

lemma build_nodes_ips_append:
  "for_range ip_step pre (foldl host_step [] rservers) = Inr nodes \<Longrightarrow>
   ip_step nodes e = Inl p \<Longrightarrow>
   build_nodes rservers (pre @ e # post) rsubnets rrdns rfailover = Inl p"
  by (simp add: build_nodes_def for_range_append)

text \<open>
  Claim C2, as amended.  \<open>nodes\<close> is the map when an address record \<open>e\<close> is
  reached (the host pass and the records before \<open>e\<close> have run), and no node is
  stored under the address of \<open>e\<close>.  If no node of any kind is stored under the
  owner's address, the run ends in the panic \<open>no host found for\<close>, whatever follows.
  If a node is stored under the owner's address, its address differs from the record's,
  and a new node of kind Management is stored under the record's address, a clone of the
  found node with the record's fields assigned; its ancestry is that of the found node,
  which is the ancestry of a node of kind Host in the map.  The source does not look at
  the kind of the node it finds under the owner's address.
\<close>

theorem ip_pass_owner_lookup:
  assumes "for_range ip_step pre (foldl host_step [] rservers) = Inr nodes"
      and "map_of nodes (IP_String (api_Ip.Ip e)) = None"
  shows "(map_of nodes (IP_String (api_Ip.Server_ip e)) = None \<longrightarrow>
            getHetznerData rservers (pre @ e # post) rsubnets rrdns rfailover =
              Inl (Panic (''no host found for '' @ IP_String (api_Ip.Ip e)))) \<and>
         (\<forall>host. map_of nodes (IP_String (api_Ip.Server_ip e)) = Some host \<longrightarrow>
            \<not> IP_Equal (Ip host) (api_Ip.Ip e) \<and>
            for_range ip_step (pre @ [e]) (foldl host_step [] rservers) =
              Inr (nodes @ [(IP_String (api_Ip.Ip e),
                     ip_assign e (host\<lparr> Ip := api_Ip.Ip e, Kind := KindManagement \<rparr>))]) \<and>
            (\<exists>h. map_of nodes (IP_String (Server_ip host)) = Some h \<and> Kind h = KindHost \<and>
                 ancestry h = ancestry host \<and>
                 ancestry (ip_assign e (host\<lparr> Ip := api_Ip.Ip e, Kind := KindManagement \<rparr>)) = ancestry h))"
proof (intro conjI impI allI)
  assume "map_of nodes (IP_String (api_Ip.Server_ip e)) = None"
  with assms(2) have "ip_step nodes e = Inl (Panic (''no host found for '' @ IP_String (api_Ip.Ip e)))"
    by (simp add: ip_step_def ip_find_def)
  from build_nodes_ips_append[OF assms(1) this]
  show "getHetznerData rservers (pre @ e # post) rsubnets rrdns rfailover =
              Inl (Panic (''no host found for '' @ IP_String (api_Ip.Ip e)))"
    by (simp add: getHetznerData_def)
next
  fix host assume host: "map_of nodes (IP_String (api_Ip.Server_ip e)) = Some host"
  have wf: "wf_nodes nodes" using ip_pass_wf[OF host_pass_wf assms(1)] by simp
  then have inv: "table_inv (map_of nodes)" by (simp add: wf_nodes_def)
  from inv host have key: "IP_String (Ip host) = IP_String (api_Ip.Server_ip e)"
    unfolding table_inv_def by blast
  show ne: "\<not> IP_Equal (Ip host) (api_Ip.Ip e)"
  proof
    assume "IP_Equal (Ip host) (api_Ip.Ip e)"
    then have "IP_String (Ip host) = IP_String (api_Ip.Ip e)" by (rule IP_Equal_String)
    with key host assms(2) show False by simp
  qed
  let ?n = "host\<lparr> Ip := api_Ip.Ip e, Kind := KindManagement \<rparr>"
  have "ip_step nodes e = Inr (nodes @ [(IP_String (api_Ip.Ip e), ip_assign e ?n)])"
    using assms(2) host ne
    by (simp add: ip_step_def ip_find_def Clone_id Let_def update_new map_entry_new)
  with assms(1)
  show "for_range ip_step (pre @ [e]) (foldl host_step [] rservers) =
          Inr (nodes @ [(IP_String (api_Ip.Ip e), ip_assign e ?n)])"
    by (simp add: for_range_append)
  from inv host obtain h where "map_of nodes (IP_String (Server_ip host)) = Some h" "Kind h = KindHost"
      "ancestry h = ancestry host"
    unfolding table_inv_def owned_def by blast
  moreover have "ancestry (ip_assign e ?n) = ancestry host"
    by (simp add: ip_assign_frame) (simp add: ancestry_def)
  ultimately show "\<exists>h. map_of nodes (IP_String (Server_ip host)) = Some h \<and> Kind h = KindHost \<and>
      ancestry h = ancestry host \<and> ancestry (ip_assign e ?n) = ancestry h"
    by simp
qed

text \<open>
  Claim C2 as stated fails: the record for 10.0.0.3 names 10.0.0.2 as its owner, under
  which a node of kind Management is stored and no node of kind Host; the run does not
  end in a panic.
\<close>

theorem ip_pass_owner_not_host:
  "\<exists>nodes l. for_range ip_step [ex_ip 2 1] (foldl host_step [] [ex_server]) = Inr nodes \<and>
      map_of nodes (IP_String (api_Ip.Ip (ex_ip 3 2))) = None \<and>
      \<not> (\<exists>h. map_of nodes (IP_String (api_Ip.Server_ip (ex_ip 3 2))) = Some h \<and> Kind h = KindHost) \<and>
      getHetznerData [ex_server] [ex_ip 2 1, ex_ip 3 2] [] [] [] = Inr l"
  by (simp add: getHetznerData_def build_nodes_def ex_eval)

theorem ip_pass_owner_lookup_witness:
  "getHetznerData [ex_server] [ex_ip 2 3] [] [] [] = Inl (Panic ''no host found for 10.0.0.2'') \<and>
   (\<exists>n. for_range ip_step [ex_ip 2 1] (foldl host_step [] [ex_server]) =
      Inr (foldl host_step [] [ex_server] @ [(''10.0.0.2'', n)]) \<and> Kind n = KindManagement \<and> 
      ancestry n = ancestry (host_node ex_server))"
  using ip_pass_owner_lookup[of "[]" "[ex_server]" "foldl host_step [] [ex_server]" "ex_ip 2 3" "[]" "[]" "[]" "[]"]
   ip_pass_owner_lookup[of "[]" "[ex_server]" "foldl host_step [] [ex_server]" "ex_ip 2 1" "[]" "[]" "[]" "[]"]
  by (simp add: ex_eval ancestry_def)

section \<open>Ancestry of the nodes\<close>

lemma build_nodes_run:
  assumes "build_nodes rservers rips rsubnets rrdns rfailover = Inr nodes"
  obtains nodes1 nodes2 subnets nodes3 where
    "for_range ip_step rips (foldl host_step [] rservers) = Inr nodes1"
    "for_range subnet_step rsubnets (nodes1, []) = Inr (nodes2, subnets)"
    "for_range (rdns_step subnets) rrdns nodes2 = Inr nodes3"
    "for_range failover_step rfailover nodes3 = Inr nodes"
    "wf_nodes nodes1" "wf_nodes nodes2" "wf_nodes nodes3" "wf_nodes nodes"
    "subnets_ok (map_of nodes2) subnets"
    "kept (map_of nodes1) (map_of nodes2)" "kept (map_of nodes2) (map_of nodes3)"
    "kept (map_of nodes3) (map_of nodes)"
proof -
  from assms obtain nodes1 nodes2 subnets nodes3 where
    1: "for_range ip_step rips (foldl host_step [] rservers) = Inr nodes1" and
    2: "for_range subnet_step rsubnets (nodes1, []) = Inr (nodes2, subnets)" and
    3: "for_range (rdns_step subnets) rrdns nodes2 = Inr nodes3" and
    4: "for_range failover_step rfailover nodes3 = Inr nodes"
    by (rule build_nodes_stages)
  have w1: "wf_nodes nodes1" using ip_pass_wf[OF host_pass_wf 1] by simp
  have s0: "subnets_ok (map_of nodes1) []" by (simp add: subnets_ok_def)
  note p2 = subnet_pass_wf[OF w1 s0 2]
  note p3 = rdns_pass_wf[OF conjunct1[OF p2] 3]
  note p4 = failover_pass_wf[OF conjunct1[OF p3] 4]
  show ?thesis
    using that[OF 1 2 3 4 w1] p2 p3 p4 by blast
qed

lemma build_nodes_moment:
  assumes b: "build_nodes rservers rips rsubnets rrdns rfailover = Inr nodes"
      and m: "moment_of (ri, rs, rr, rf) (rips, rsubnets, rrdns, rfailover)"
  shows "\<exists>nodes0. build_nodes rservers ri rs rr rf = Inr nodes0 \<and>
           kept (map_of nodes0) (map_of nodes)"
proof -
  from b obtain nodes1 nodes2 subnets nodes3 where
    1: "for_range ip_step rips (foldl host_step [] rservers) = Inr nodes1" and
    2: "for_range subnet_step rsubnets (nodes1, []) = Inr (nodes2, subnets)" and
    3: "for_range (rdns_step subnets) rrdns nodes2 = Inr nodes3" and
    4: "for_range failover_step rfailover nodes3 = Inr nodes" and
    w: "wf_nodes nodes1" "wf_nodes nodes2" "wf_nodes nodes3" and
    k12: "kept (map_of nodes1) (map_of nodes2)" and k23: "kept (map_of nodes2) (map_of nodes3)" and
    k34: "kept (map_of nodes3) (map_of nodes)"
    by (rule build_nodes_run)
  from m consider
      (ip) "prefix ri rips" "rs = []" "rr = []" "rf = []"
    | (sub) "ri = rips" "prefix rs rsubnets" "rr = []" "rf = []"
    | (rdns) "ri = rips" "rs = rsubnets" "prefix rr rrdns" "rf = []"
    | (fo) "ri = rips" "rs = rsubnets" "rr = rrdns" "prefix rf rfailover"
    unfolding moment_of_def by auto
  then show ?thesis
  proof cases
    case ip
    then obtain x where x: "rips = ri @ x" by (auto simp: prefix_def)
    from 1[unfolded x] obtain a where a: "for_range ip_step ri (foldl host_step [] rservers) = Inr a"
      "for_range ip_step x a = Inr nodes1" by (auto dest: for_range_appendD)
    have wa: "wf_nodes a" using ip_pass_wf[OF host_pass_wf a(1)] by simp
    have "kept (map_of a) (map_of nodes1)" using ip_pass_wf[OF wa a(2)] by simp
    then have "kept (map_of a) (map_of nodes)" using k12 k23 k34 by (blast intro: kept_trans)
    moreover have "build_nodes rservers ri rs rr rf = Inr a"
      using a(1) ip by (simp add: build_nodes_def)
    ultimately show ?thesis by blast
  next
    case sub
    then obtain x where x: "rsubnets = rs @ x" by (auto simp: prefix_def)
    from 2[unfolded x] obtain st where st: "for_range subnet_step rs (nodes1, []) = Inr st"
      "for_range subnet_step x st = Inr (nodes2, subnets)" by (auto dest: for_range_appendD)
    obtain a sa where ast: "st = (a, sa)" by (cases st)
    have s0: "subnets_ok (map_of nodes1) []" by (simp add: subnets_ok_def)
    note pa = subnet_pass_wf[OF w(1) s0 st(1)[unfolded ast]]
    have "kept (map_of a) (map_of nodes2)"
      using subnet_pass_wf[OF _ _ st(2)[unfolded ast]] pa by blast
    then have "kept (map_of a) (map_of nodes)" using k23 k34 by (blast intro: kept_trans)
    moreover have "build_nodes rservers ri rs rr rf = Inr a"
      using 1 st(1) ast sub by (simp add: build_nodes_def)
    ultimately show ?thesis by blast
  next
    case rdns
    then obtain x where x: "rrdns = rr @ x" by (auto simp: prefix_def)
    from 3[unfolded x] obtain a where a: "for_range (rdns_step subnets) rr nodes2 = Inr a"
      "for_range (rdns_step subnets) x a = Inr nodes3" by (auto dest: for_range_appendD)
    have wa: "wf_nodes a" using rdns_pass_wf[OF w(2) a(1)] by simp
    have "kept (map_of a) (map_of nodes3)" using rdns_pass_wf[OF wa a(2)] by simp
    then have "kept (map_of a) (map_of nodes)" using k34 by (blast intro: kept_trans)
    moreover have "build_nodes rservers ri rs rr rf = Inr a"
      using 1 2 a(1) rdns by (simp add: build_nodes_def)
    ultimately show ?thesis by blast
  next
    case fo
    then obtain x where x: "rfailover = rf @ x" by (auto simp: prefix_def)
    from 4[unfolded x] obtain a where a: "for_range failover_step rf nodes3 = Inr a"
      "for_range failover_step x a = Inr nodes" by (auto dest: for_range_appendD)
    have wa: "wf_nodes a" using failover_pass_wf[OF w(3) a(1)] by simp
    have "kept (map_of a) (map_of nodes)" using failover_pass_wf[OF wa a(2)] by simp
    moreover have "build_nodes rservers ri rs rr rf = Inr a"
      using 1 2 3 a(1) fo by (simp add: build_nodes_def)
    ultimately show ?thesis by blast
  qed
qed

text \<open>
  Claim C1.  In the result of a run, every node whose kind is not Host has the ancestry
  fields (product, datacentre, server name, server number, status, cancelled, flatrate,
  throttled, paid-until, traffic) of a node of kind Host of the result, the one stored
  under the node's server address.  The ancestry of a node is the one it was created
  with: at every moment of the run after the host pass (given by the records processed
  so far), each node stored in the map then is a node of the result under the same
  address, with the same ancestry.
\<close>

theorem ancestry_copy:
  assumes "getHetznerData rservers rips rsubnets rrdns rfailover = Inr l"
  shows "(\<forall>n\<in>set l. Kind n \<noteq> KindHost \<longrightarrow>
           (\<exists>h\<in>set l. Kind h = KindHost \<and> IP_String (Ip h) = IP_String (Server_ip n) \<and>
                       ancestry h = ancestry n)) \<and>
         (\<forall>ri rs rr rf. moment_of (ri, rs, rr, rf) (rips, rsubnets, rrdns, rfailover) \<longrightarrow>
            (\<exists>nodes0. build_nodes rservers ri rs rr rf = Inr nodes0 \<and>
               (\<forall>k n0. map_of nodes0 k = Some n0 \<longrightarrow>
                  (\<exists>n\<in>set l. IP_String (Ip n) = k \<and> ancestry n = ancestry n0))))"
proof (intro conjI allI impI)
  show "\<forall>n\<in>set l. Kind n \<noteq> KindHost \<longrightarrow>
           (\<exists>h\<in>set l. Kind h = KindHost \<and> IP_String (Ip h) = IP_String (Server_ip n) \<and>
                       ancestry h = ancestry n)"
    using assms by (rule output_owned)
next
  fix ri rs rr rf
  assume m: "moment_of (ri, rs, rr, rf) (rips, rsubnets, rrdns, rfailover)"
  from assms obtain nodes where b: "build_nodes rservers rips rsubnets rrdns rfailover = Inr nodes"
    and l: "l = sort_Nodes (map snd nodes)"
    by (auto simp: getHetznerData_def split: sum.splits)
  from build_nodes_wf[OF b] have inv: "table_inv (map_of nodes)"
    by (simp add: wf_nodes_def)
  from build_nodes_moment[OF b m] obtain nodes0 where
    n0: "build_nodes rservers ri rs rr rf = Inr nodes0" and k: "kept (map_of nodes0) (map_of nodes)"
    by blast
  have "\<forall>k n0. map_of nodes0 k = Some n0 \<longrightarrow>
                  (\<exists>n\<in>set l. IP_String (Ip n) = k \<and> ancestry n = ancestry n0)"
  proof (intro allI impI)
    fix key n0 assume "map_of nodes0 key = Some n0"
    with k obtain n where n: "map_of nodes key = Some n" "ancestry n = ancestry n0"
      unfolding kept_def by blast
    from n(1) have "(key, n) \<in> set nodes" by (rule map_of_SomeD)
    then have "n \<in> set l" unfolding l set_sort_Nodes by force
    moreover from inv n(1) have "IP_String (Ip n) = key" unfolding table_inv_def by blast
    ultimately show "\<exists>n\<in>set l. IP_String (Ip n) = key \<and> ancestry n = ancestry n0"
      using n(2) by blast
  qed
  with n0 show "\<exists>nodes0. build_nodes rservers ri rs rr rf = Inr nodes0 \<and>
               (\<forall>k n0. map_of nodes0 k = Some n0 \<longrightarrow>
                  (\<exists>n\<in>set l. IP_String (Ip n) = k \<and> ancestry n = ancestry n0))"
    by blast
qed

theorem ancestry_copy_witness:
  "\<exists>l. getHetznerData [ex_server] [ex_ip 2 1] [] [] [] = Inr l \<and>
     (\<exists>n\<in>set l. Kind n = KindManagement \<and>
        (\<exists>h\<in>set l. Kind h = KindHost \<and> IP_String (Ip h) = IP_String (Server_ip n) \<and>
                       ancestry h = ancestry n))"
proof -
  have "\<exists>l. getHetznerData [ex_server] [ex_ip 2 1] [] [] [] = Inr l \<and>
     (\<exists>n\<in>set l. Kind n = KindManagement)"
    by (simp add: getHetznerData_def build_nodes_def ex_eval sort_Nodes_def node_less_def)
  then obtain l n where l: "getHetznerData [ex_server] [ex_ip 2 1] [] [] [] = Inr l"
    and n: "n \<in> set l" "Kind n = KindManagement" by blast
  from ancestry_copy[OF l] n have "\<exists>h\<in>set l. Kind h = KindHost \<and>
      IP_String (Ip h) = IP_String (Server_ip n) \<and> ancestry h = ancestry n"
    by auto
  with l n show ?thesis by blast
qed

section \<open>The subnet pass and the owner of a subnet\<close>

lemma build_nodes_subnets_append:
  "for_range ip_step rips (foldl host_step [] rservers) = Inr nodes1 \<Longrightarrow>
   for_range subnet_step pre (nodes1, []) = Inr st \<Longrightarrow>
   subnet_step st e = Inl p \<Longrightarrow>
   build_nodes rservers rips (pre @ e # post) rrdns rfailover = Inl p"
  by (simp add: build_nodes_def for_range_append)

text \<open>
  Claim C9, as amended.  \<open>nodes\<close> is the map when a subnet record \<open>e\<close> is reached
  (the host pass, the address pass and the subnet records before \<open>e\<close> have run), and
  no node is stored under the subnet's address.  If no node of any kind is stored under
  the owner's address, \<open>server\<close> is \<open>nil\<close> and \<open>server.Clone()\<close> ends the run
  in a nil pointer panic, not in a panic with one of the program's messages.  If a node
  is stored there, of whatever kind, the step is defined: a node of kind Network is
  stored under the subnet's address and appended to the subnet list, with the ancestry
  of the found node, which is the ancestry of a node of kind Host in the map.
\<close>

theorem subnet_pass_owner_lookup:
  assumes "for_range ip_step rips (foldl host_step [] rservers) = Inr nodes1"
      and "for_range subnet_step pre (nodes1, []) = Inr (nodes, subnets)"
      and "map_of nodes (IP_String (api_Subnet.Ip e)) = None"
  shows "(map_of nodes (IP_String (api_Subnet.Server_ip e)) = None \<longrightarrow>
            subnet_step (nodes, subnets) e = Inl NilPointerDereference \<and>
            getHetznerData rservers rips (pre @ e # post) rrdns rfailover = Inl NilPointerDereference) \<and>
         (\<forall>server. map_of nodes (IP_String (api_Subnet.Server_ip e)) = Some server \<longrightarrow>
            (\<exists>n h. for_range subnet_step (pre @ [e]) (nodes1, []) =
                     Inr (nodes @ [(IP_String (api_Subnet.Ip e), n)],
                          subnets @ [IP_String (api_Subnet.Ip e)]) \<and>
                   Kind n = KindNetwork \<and> Ip n = api_Subnet.Ip e \<and> ancestry n = ancestry server \<and>
                   map_of nodes (IP_String (Server_ip server)) = Some h \<and> Kind h = KindHost \<and>
                   ancestry h = ancestry n))"
proof (intro conjI impI allI)
  assume none: "map_of nodes (IP_String (api_Subnet.Server_ip e)) = None"
  with assms(3) show s: "subnet_step (nodes, subnets) e = Inl NilPointerDereference"
    by (simp add: subnet_step_def)
  from build_nodes_subnets_append[OF assms(1,2) s]
  show "getHetznerData rservers rips (pre @ e # post) rrdns rfailover = Inl NilPointerDereference"
    by (simp add: getHetznerData_def)
next
  fix server assume server: "map_of nodes (IP_String (api_Subnet.Server_ip e)) = Some server"
  have w1: "wf_nodes nodes1" using ip_pass_wf[OF host_pass_wf assms(1)] by simp
  have "subnets_ok (map_of nodes1) []" by (simp add: subnets_ok_def)
  from subnet_pass_wf[OF w1 this assms(2)] have inv: "table_inv (map_of nodes)"
    by (simp add: wf_nodes_def)
  from inv server obtain h where h: "map_of nodes (IP_String (Server_ip server)) = Some h"
      "Kind h = KindHost" "ancestry h = ancestry server"
    unfolding table_inv_def owned_def by blast
  define n where "n = server
                        \<lparr> Ip := api_Subnet.Ip e,
                          Kind := KindNetwork,
                          Gateway := api_Subnet.Gateway e,
                          Failover := api_Subnet.Failover e,
                          Locked := api_Subnet.Locked e,
                          Traffic_warnings := api_Subnet.Traffic_warnings e,
                          Traffic_hourly := api_Subnet.Traffic_hourly e,
                          Traffic_daily := api_Subnet.Traffic_daily e,
                          Traffic_monthly := api_Subnet.Traffic_monthly e,
                          Subnet := Some \<lparr> IP = api_Subnet.Ip e, Mask = CIDRMask (api_Subnet.Mask e)
                             (if To4 (api_Subnet.Ip e) = [] then 8 * IPv6len else 8 * IPv4len) \<rparr> \<rparr>"
  have "subnet_step (nodes, subnets) e =
          Inr (nodes @ [(IP_String (api_Subnet.Ip e), n)], subnets @ [IP_String (api_Subnet.Ip e)])"
    using assms(3) server by (simp add: subnet_step_def Clone_id Let_def n_def update_new)
  with assms(2) have "for_range subnet_step (pre @ [e]) (nodes1, []) =
          Inr (nodes @ [(IP_String (api_Subnet.Ip e), n)], subnets @ [IP_String (api_Subnet.Ip e)])"
    by (simp add: for_range_append)
  moreover have "Kind n = KindNetwork" "Ip n = api_Subnet.Ip e" "ancestry n = ancestry server"
    by (simp_all add: n_def ancestry_def)
  ultimately show "\<exists>n h. for_range subnet_step (pre @ [e]) (nodes1, []) =
                     Inr (nodes @ [(IP_String (api_Subnet.Ip e), n)],
                          subnets @ [IP_String (api_Subnet.Ip e)]) \<and>
                   Kind n = KindNetwork \<and> Ip n = api_Subnet.Ip e \<and> ancestry n = ancestry server \<and>
                   map_of nodes (IP_String (Server_ip server)) = Some h \<and> Kind h = KindHost \<and>
                   ancestry h = ancestry n"
    using h by auto
qed

theorem subnet_pass_owner_lookup_witness:
  "getHetznerData [ex_server] [] [ex_subnet 1 24 7 False] [] [] = Inl NilPointerDereference \<and>
   (\<exists>n. for_range subnet_step [ex_subnet 1 24 1 False] (foldl host_step [] [ex_server], []) =
           Inr (foldl host_step [] [ex_server] @ [(''10.1.0.0'', n)], [''10.1.0.0'']) \<and>
         Kind n = KindNetwork \<and> ancestry n = ancestry (host_node ex_server))"
proof -
  have k: "IP_String (api_Subnet.Ip (ex_subnet 1 24 o' False)) = ''10.1.0.0''" for o'
    by (simp add: ex_eval)
  have a: "map_of (foldl host_step [] [ex_server]) ''10.1.0.0'' = None"
    "map_of (foldl host_step [] [ex_server]) (IP_String (api_Subnet.Server_ip (ex_subnet 1 24 7 False))) = None"
    "map_of (foldl host_step [] [ex_server]) (IP_String (api_Subnet.Server_ip (ex_subnet 1 24 1 False)))
       = Some (host_node ex_server)"
    by (simp_all add: ex_eval IP_String_IPv4 digit_char_def)
  have r: "for_range ip_step [] (foldl host_step [] [ex_server]) = Inr (foldl host_step [] [ex_server])"
    "for_range subnet_step [] (foldl host_step [] [ex_server], []) = Inr (foldl host_step [] [ex_server], [])"
    by simp_all
  from subnet_pass_owner_lookup[OF r, of "ex_subnet 1 24 7 False" "[]" "[]" "[]"] a
  have "getHetznerData [ex_server] [] [ex_subnet 1 24 7 False] [] [] = Inl NilPointerDereference"
    by (simp add: k)
  moreover
  from subnet_pass_owner_lookup[OF r, of "ex_subnet 1 24 1 False" "[]" "[]" "[]"] a
  have "\<exists>n. for_range subnet_step [ex_subnet 1 24 1 False] (foldl host_step [] [ex_server], []) =
           Inr (foldl host_step [] [ex_server] @ [(''10.1.0.0'', n)], [''10.1.0.0'']) \<and>
         Kind n = KindNetwork \<and> ancestry n = ancestry (host_node ex_server)"
    unfolding k by (simp only: append_Nil) blast
  ultimately show ?thesis by blast
qed

text \<open>
  Claim C9 as stated fails: the subnet record names 10.0.0.2 as its owner, under which a
  node of kind Management is stored and no node of kind Host; the step is defined and
  the run does not panic.
\<close>

theorem subnet_pass_owner_not_host:
  "\<exists>nodes st l. for_range ip_step [ex_ip 2 1] (foldl host_step [] [ex_server]) = Inr nodes \<and>
      \<not> (\<exists>h. map_of nodes (IP_String (api_Subnet.Server_ip (ex_subnet 1 24 2 False))) = Some h \<and>
               Kind h = KindHost) \<and>
      subnet_step (nodes, []) (ex_subnet 1 24 2 False) = Inr st \<and>
      getHetznerData [ex_server] [ex_ip 2 1] [ex_subnet 1 24 2 False] [] [] = Inr l"
  by (simp add: getHetznerData_def build_nodes_def subnet_step_def ex_eval)

section \<open>A paid-until date that does not parse\<close>

lemma host_step_cong: "host_node e = host_node e' \<Longrightarrow> host_step nodes e = host_step nodes e'"
  by (simp add: host_step_def)

lemma time_Parse_zero: "time_Parse ''0001-01-01'' = Some zero_Time"
  by (simp add: time_Parse_def isDigit_def zero_Time_def daysIn_def)

lemma map_of_host_step:
  "map_of (host_step nodes e) (IP_String (api_Server.Server_ip e)) = Some (host_node e)"
  by (simp add: host_step_def Let_def update_conv' host_node_frame)

text \<open>
  Claim C8.  For a server record \<open>e\<close> whose paid-until text does not parse with the
  layout \<open>2006-01-02\<close>: the node built for it has the zero time as its paid-until
  field; it is the node built for the same record with any other paid-until text (a
  well-formed date in particular), except for that field; the node is stored under the
  server's address, the host pass having no way to fail; the run as a whole has the
  outcome it has when the text is the well-formed date \<open>0001-01-01\<close>, which parses
  to the zero time; and a run over server records alone succeeds.
\<close>

theorem paid_until_parse_failure:
  assumes "time_Parse (api_Server.Paid_until e) = None"
  shows "Paid_until (host_node e) = zero_Time \<and> Kind (host_node e) = KindHost \<and>
         host_node e = (host_node (e\<lparr> api_Server.Paid_until := d \<rparr>))\<lparr> Paid_until := zero_Time \<rparr> \<and>
         map_of (foldl host_step [] (pre @ [e])) (IP_String (api_Server.Server_ip e)) = Some (host_node e) \<and>
         getHetznerData (pre @ e # post) rips rsubnets rrdns rfailover =
           getHetznerData (pre @ e\<lparr> api_Server.Paid_until := ''0001-01-01'' \<rparr> # post)
             rips rsubnets rrdns rfailover \<and>
         (\<exists>l. getHetznerData (pre @ e # post) [] [] [] [] = Inr l)"
proof -
  have 1: "Paid_until (host_node e) = zero_Time" "Kind (host_node e) = KindHost"
    using assms by (simp_all add: host_node_def)
  have 2: "host_node e = (host_node (e\<lparr> api_Server.Paid_until := d \<rparr>))\<lparr> Paid_until := zero_Time \<rparr>"
    using assms by (simp add: host_node_def Let_def)
  have "host_node e = host_node (e\<lparr> api_Server.Paid_until := ''0001-01-01'' \<rparr>)"
    using assms by (simp add: host_node_def time_Parse_zero)
  then have "host_step nodes e = host_step nodes (e\<lparr> api_Server.Paid_until := ''0001-01-01'' \<rparr>)" for nodes
    by (rule host_step_cong)
  then have 3: "foldl host_step [] (pre @ e # post) =
      foldl host_step [] (pre @ e\<lparr> api_Server.Paid_until := ''0001-01-01'' \<rparr> # post)"
    by simp
  have 4: "map_of (foldl host_step [] (pre @ [e])) (IP_String (api_Server.Server_ip e)) = Some (host_node e)"
    by (simp add: map_of_host_step)
  have 5: "\<exists>l. getHetznerData (pre @ e # post) [] [] [] [] = Inr l"
    by (simp add: getHetznerData_def build_nodes_def)
  have 6: "getHetznerData (pre @ e # post) rips rsubnets rrdns rfailover =
           getHetznerData (pre @ e\<lparr> api_Server.Paid_until := ''0001-01-01'' \<rparr> # post)
             rips rsubnets rrdns rfailover"
    unfolding getHetznerData_def build_nodes_def 3 ..
  show ?thesis
    using 1 2 4 5 6 by blast
qed

theorem paid_until_parse_failure_witness:
  "time_Parse ''unknown'' = None \<and>
   Paid_until (host_node (ex_server\<lparr> api_Server.Paid_until := ''unknown'' \<rparr>)) = zero_Time \<and>
   host_node (ex_server\<lparr> api_Server.Paid_until := ''unknown'' \<rparr>)
     = (host_node ex_server)\<lparr> Paid_until := zero_Time \<rparr> \<and>
   Paid_until (host_node ex_server) = Date 2014 1 31"
proof -
  have p: "time_Parse (api_Server.Paid_until (ex_server\<lparr> api_Server.Paid_until := ''unknown'' \<rparr>)) = None"
    by (simp add: time_Parse_def)
  have q: "(ex_server\<lparr> api_Server.Paid_until := ''unknown'' \<rparr>)\<lparr> api_Server.Paid_until := ''2014-01-31'' \<rparr> = ex_server"
    by (simp add: ex_server_def)
  have r: "Paid_until (host_node ex_server) = Date 2014 1 31"
    by (simp add: host_node_def ex_server_def time_Parse_def isDigit_def daysIn_def isLeap_def)
  from paid_until_parse_failure[OF p, of "''2014-01-31''" "[]" "[]" "[]" "[]" "[]" "[]"] p r
  show ?thesis unfolding q by simp
qed

section \<open>Placing a reverse DNS record\<close>

lemma rdns_scan_first:
  assumes "subnets_ok (map_of nodes) (before @ s # after)"
      and "\<forall>s'\<in>set before. \<not> in_subnet nodes s' ip" and "in_subnet nodes s ip"
  shows "\<exists>sn. map_of nodes s = Some sn \<and>
           rdns_scan nodes ip ptr (before @ s # after) =
             (case map_of nodes (IP_String (Server_ip sn)) of
                None \<Rightarrow> Inl NilPointerDereference
              | Some host \<Rightarrow>
                  Inr (AList.update (IP_String ip)
                         (host\<lparr> Ip := ip, Ptr := ptr, Kind := KindVirtual \<rparr>) nodes))"
  using assms
proof (induction before)
  case Nil
  then show ?case
    by (auto simp: in_subnet_def Clone_id Let_def split: option.splits)
next
  case (Cons b before)
  from Cons.prems(1) obtain sn net where "map_of nodes b = Some sn" "Subnet sn = Some net"
    by (auto simp: subnets_ok_def)
  moreover from Cons.prems(2) have "\<not> in_subnet nodes b ip" by simp
  ultimately have "rdns_scan nodes ip ptr ((b # before) @ s # after) =
      rdns_scan nodes ip ptr (before @ s # after)"
    by (simp add: in_subnet_def)
  moreover have "subnets_ok (map_of nodes) (before @ s # after)"
    using Cons.prems(1) by (simp add: subnets_ok_def)
  ultimately show ?case using Cons.IH Cons.prems(2,3) by simp
qed

lemma rdns_scan_none:
  assumes "subnets_ok (map_of nodes) ss" and "\<forall>s\<in>set ss. \<not> in_subnet nodes s ip"
  shows "rdns_scan nodes ip ptr ss =
           Inl (Panic (''should not reach that point: loosen record '' @ IP_String ip @ '' PTR '' @ ptr))"
  using assms
proof (induction ss)
  case Nil
  then show ?case by simp
next
  case (Cons s ss)
  from Cons.prems(1) obtain sn net where "map_of nodes s = Some sn" "Subnet sn = Some net"
    by (auto simp: subnets_ok_def)
  moreover from Cons.prems(2) have "\<not> in_subnet nodes s ip" by simp
  ultimately have "rdns_scan nodes ip ptr (s # ss) = rdns_scan nodes ip ptr ss"
    by (simp add: in_subnet_def)
  moreover have "subnets_ok (map_of nodes) ss"
    using Cons.prems(1) by (simp add: subnets_ok_def)
  ultimately show ?case using Cons.IH Cons.prems(2) by simp
qed

lemma subnet_pass_list:
  "for_range subnet_step es (nodes, subnets) = Inr (nodes', subnets') \<Longrightarrow>
     subnets' = subnets @ map (\<lambda>r. IP_String (api_Subnet.Ip r)) es"
proof (induction es arbitrary: nodes subnets)
  case Nil
  then show ?case by simp
next
  case (Cons e es)
  from Cons.prems obtain n1 s1 where s: "subnet_step (nodes, subnets) e = Inr (n1, s1)"
    and r: "for_range subnet_step es (n1, s1) = Inr (nodes', subnets')"
    by (auto split: sum.splits)
  from s have "s1 = subnets @ [IP_String (api_Subnet.Ip e)]"
    by (auto simp: subnet_step_def Let_def split: if_splits option.splits)
  with Cons.IH[OF r] show ?case by simp
qed

lemma build_nodes_rdns_append:
  "for_range ip_step rips (foldl host_step [] rservers) = Inr nodes1 \<Longrightarrow>
   for_range subnet_step rsubnets (nodes1, []) = Inr (nodes2, subnets) \<Longrightarrow>
   for_range (rdns_step subnets) pre nodes2 = Inr nodes \<Longrightarrow>
   rdns_step subnets nodes e = Inl p \<Longrightarrow>
   build_nodes rservers rips rsubnets (pre @ e # post) rfailover = Inl p"
  by (simp add: build_nodes_def for_range_append)

text \<open>
  Claim C3.  \<open>nodes\<close> is the map when a reverse DNS record \<open>e\<close> is reached (the first
  three passes and the records before \<open>e\<close> have run) and \<open>subnets\<close> is the subnet
  list, which lists the subnets in the order of their creation, the order of the subnet
  records.  If a node is stored under the record's address, its PTR field is set to the
  record's name.  Otherwise, if \<open>s\<close> is the first entry of the subnet list whose range
  contains the address, a new node of kind Virtual is stored under the address, with
  the PTR set: a clone of the node stored under the server address of \<open>s\<close>, which is
  a node of kind Host with the ancestry of \<open>s\<close>.  If no node is stored under the
  address and no subnet contains it, the run ends in the panic
  \<open>should not reach that point\<close>, whatever follows: the record is not dropped.
\<close>

theorem rdns_pass_placement:
  assumes "for_range ip_step rips (foldl host_step [] rservers) = Inr nodes1"
      and "for_range subnet_step rsubnets (nodes1, []) = Inr (nodes2, subnets)"
      and "for_range (rdns_step subnets) pre nodes2 = Inr nodes"
  shows "subnets = map (\<lambda>r. IP_String (api_Subnet.Ip r)) rsubnets \<and>
     (\<forall>n. map_of nodes (IP_String (api_Rdns.Ip e)) = Some n \<longrightarrow>
        for_range (rdns_step subnets) (pre @ [e]) nodes2 =
          Inr (AList.update (IP_String (api_Rdns.Ip e)) (n\<lparr> Ptr := api_Rdns.Ptr e \<rparr>) nodes)) \<and>
     (map_of nodes (IP_String (api_Rdns.Ip e)) = None \<longrightarrow>
        (\<forall>before s after.
           subnets = before @ s # after \<and>
           (\<forall>s'\<in>set before. \<not> in_subnet nodes s' (api_Rdns.Ip e)) \<and>
           in_subnet nodes s (api_Rdns.Ip e) \<longrightarrow>
           (\<exists>sn host.
              map_of nodes s = Some sn \<and>
              map_of nodes (IP_String (Server_ip sn)) = Some host \<and>
              Kind host = KindHost \<and> ancestry host = ancestry sn \<and>
              for_range (rdns_step subnets) (pre @ [e]) nodes2 =
                Inr (nodes @ [(IP_String (api_Rdns.Ip e),
                       host\<lparr> Ip := api_Rdns.Ip e, Ptr := api_Rdns.Ptr e, Kind := KindVirtual \<rparr>)]))) \<and>
        ((\<forall>s\<in>set subnets. \<not> in_subnet nodes s (api_Rdns.Ip e)) \<longrightarrow>
           getHetznerData rservers rips rsubnets (pre @ e # post) rfailover =
             Inl (Panic (''should not reach that point: loosen record '' @
                         IP_String (api_Rdns.Ip e) @ '' PTR '' @ api_Rdns.Ptr e))))"
proof -
  let ?ip = "api_Rdns.Ip e" and ?ptr = "api_Rdns.Ptr e"
  have w1: "wf_nodes nodes1" using ip_pass_wf[OF host_pass_wf assms(1)] by simp
  have "subnets_ok (map_of nodes1) []" by (simp add: subnets_ok_def)
  note p2 = subnet_pass_wf[OF w1 this assms(2)]
  note p3 = rdns_pass_wf[OF conjunct1[OF p2] assms(3)]
  have inv: "table_inv (map_of nodes)" using p3 by (simp add: wf_nodes_def)
  have ok: "subnets_ok (map_of nodes) subnets"
    using p2 p3 by (blast intro: subnets_ok_kept)
  have A: "subnets = map (\<lambda>r. IP_String (api_Subnet.Ip r)) rsubnets"
    using subnet_pass_list[OF assms(2)] by simp
  have B: "for_range (rdns_step subnets) (pre @ [e]) nodes2 =
          Inr (AList.update (IP_String ?ip) (n\<lparr> Ptr := ?ptr \<rparr>) nodes)"
    if "map_of nodes (IP_String ?ip) = Some n" for n
    using that assms(3) by (simp add: for_range_append rdns_step_def Let_def)
  have C: "\<exists>sn host.
              map_of nodes s = Some sn \<and>
              map_of nodes (IP_String (Server_ip sn)) = Some host \<and>
              Kind host = KindHost \<and> ancestry host = ancestry sn \<and>
              for_range (rdns_step subnets) (pre @ [e]) nodes2 =
                Inr (nodes @ [(IP_String ?ip, host\<lparr> Ip := ?ip, Ptr := ?ptr, Kind := KindVirtual \<rparr>)])"
    if none: "map_of nodes (IP_String ?ip) = None"
      and split: "subnets = before @ s # after"
      and nb: "\<forall>s'\<in>set before. \<not> in_subnet nodes s' ?ip" and hit: "in_subnet nodes s ?ip"
    for before s after
  proof -
    from rdns_scan_first[OF ok[unfolded split] nb hit, of ?ptr]
    obtain sn where sn: "map_of nodes s = Some sn"
      and sc: "rdns_scan nodes ?ip ?ptr subnets =
             (case map_of nodes (IP_String (Server_ip sn)) of
                None \<Rightarrow> Inl NilPointerDereference
              | Some host \<Rightarrow>
                  Inr (AList.update (IP_String ?ip)
                         (host\<lparr> Ip := ?ip, Ptr := ?ptr, Kind := KindVirtual \<rparr>) nodes))"
      unfolding split by blast
    from inv sn obtain host where host: "map_of nodes (IP_String (Server_ip sn)) = Some host"
        "Kind host = KindHost" "ancestry host = ancestry sn"
      unfolding table_inv_def owned_def by blast
    have "rdns_step subnets nodes e =
        Inr (nodes @ [(IP_String ?ip, host\<lparr> Ip := ?ip, Ptr := ?ptr, Kind := KindVirtual \<rparr>)])"
      using none sc host(1) by (simp add: rdns_step_def update_new Let_def)
    with assms(3) have "for_range (rdns_step subnets) (pre @ [e]) nodes2 =
        Inr (nodes @ [(IP_String ?ip, host\<lparr> Ip := ?ip, Ptr := ?ptr, Kind := KindVirtual \<rparr>)])"
      by (simp add: for_range_append)
    with sn host show ?thesis by blast
  qed
  have D: "getHetznerData rservers rips rsubnets (pre @ e # post) rfailover =
             Inl (Panic (''should not reach that point: loosen record '' @
                         IP_String ?ip @ '' PTR '' @ ?ptr))"
    if none: "map_of nodes (IP_String ?ip) = None"
      and miss: "\<forall>s\<in>set subnets. \<not> in_subnet nodes s ?ip"
  proof -
    have "rdns_step subnets nodes e =
        Inl (Panic (''should not reach that point: loosen record '' @ IP_String ?ip @ '' PTR '' @ ?ptr))"
      using none rdns_scan_none[OF ok miss] by (simp add: rdns_step_def Let_def)
    from build_nodes_rdns_append[OF assms this] show ?thesis
      by (simp add: getHetznerData_def)
  qed
  show ?thesis
    using A B C D by blast
qed

theorem rdns_pass_placement_witness:
  "getHetznerData [ex_server] [] [ex_subnet 1 24 1 False] [ex_rdns 3 5] [] =
     Inl (Panic ''should not reach that point: loosen record 10.3.0.5 PTR x.example.com'') \<and>
   (\<exists>nodes2 host.
      for_range subnet_step [ex_subnet 1 24 1 False] (foldl host_step [] [ex_server], []) =
        Inr (nodes2, [''10.1.0.0'']) \<and>
      Kind host = KindHost \<and>
      for_range (rdns_step [''10.1.0.0'']) [ex_rdns 1 5] nodes2 =
        Inr (nodes2 @ [(''10.1.0.5'',
               host\<lparr> Ip := IPv4 10 1 0 5, Ptr := ''x.example.com'', Kind := KindVirtual \<rparr>)]))"
proof -
  let ?n1 = "foldl host_step [] [ex_server]"
  have "\<exists>nodes2. for_range subnet_step [ex_subnet 1 24 1 False] (?n1, []) = Inr (nodes2, [''10.1.0.0'']) \<and>
      map_of nodes2 ''10.1.0.5'' = None \<and> map_of nodes2 ''10.3.0.5'' = None \<and>
      in_subnet nodes2 ''10.1.0.0'' (IPv4 10 1 0 5) \<and> \<not> in_subnet nodes2 ''10.1.0.0'' (IPv4 10 3 0 5)"
    by (simp add: subnet_step_def ex_eval in_subnet_def ex_to4 ex_contains IPv4len_def)
  then obtain nodes2 where 2: "for_range subnet_step [ex_subnet 1 24 1 False] (?n1, []) = Inr (nodes2, [''10.1.0.0''])"
    and none: "map_of nodes2 ''10.1.0.5'' = None" "map_of nodes2 ''10.3.0.5'' = None"
    and hit: "in_subnet nodes2 ''10.1.0.0'' (IPv4 10 1 0 5)"
    and miss: "\<not> in_subnet nodes2 ''10.1.0.0'' (IPv4 10 3 0 5)"
    by blast
  have 1: "for_range ip_step [] ?n1 = Inr ?n1" by simp
  have 3: "for_range (rdns_step [''10.1.0.0'']) [] nodes2 = Inr nodes2" by simp
  have k: "api_Rdns.Ip (ex_rdns c d) = IPv4 10 c 0 d" "api_Rdns.Ptr (ex_rdns c d) = ''x.example.com''" for c d
    by (simp_all add: ex_rdns_def)
  from rdns_pass_placement[OF 1 2 3, of "ex_rdns 3 5" "[]" "[]"] none miss
  have A: "getHetznerData [ex_server] [] [ex_subnet 1 24 1 False] [ex_rdns 3 5] [] =
     Inl (Panic ''should not reach that point: loosen record 10.3.0.5 PTR x.example.com'')"
    by (simp add: k ex_strings)
  from rdns_pass_placement[OF 1 2 3, of "ex_rdns 1 5" "[]" "[]"] none
  have X: "\<forall>before s after.
           [''10.1.0.0''] = before @ s # after \<and>
           (\<forall>s'\<in>set before. \<not> in_subnet nodes2 s' (IPv4 10 1 0 5)) \<and>
           in_subnet nodes2 s (IPv4 10 1 0 5) \<longrightarrow>
           (\<exists>sn host.
              map_of nodes2 s = Some sn \<and>
              map_of nodes2 (IP_String (Server_ip sn)) = Some host \<and>
              Kind host = KindHost \<and> ancestry host = ancestry sn \<and>
              for_range (rdns_step [''10.1.0.0'']) ([] @ [ex_rdns 1 5]) nodes2 =
                Inr (nodes2 @ [(''10.1.0.5'',
                       host\<lparr> Ip := IPv4 10 1 0 5, Ptr := ''x.example.com'', Kind := KindVirtual \<rparr>)]))"
    unfolding k ex_strings by blast
  from X[rule_format, of "[]" "''10.1.0.0''" "[]"] hit
  have "\<exists>host. Kind host = KindHost \<and>
              for_range (rdns_step [''10.1.0.0'']) [ex_rdns 1 5] nodes2 =
                Inr (nodes2 @ [(''10.1.0.5'',
                       host\<lparr> Ip := IPv4 10 1 0 5, Ptr := ''x.example.com'', Kind := KindVirtual \<rparr>)])"
    by (simp only: append_Nil set_simps ball_empty simp_thms) blast
  with A 2 show ?thesis by auto
qed

section \<open>The order of the nodes\<close>

lemma node_less_key: "node_less a b \<longleftrightarrow> order_key a < order_key b"
  by (auto simp: node_less_def order_key_def)

lemma not_node_less_key: "\<not> node_less b a \<longleftrightarrow> order_key a \<le> order_key b"
  by (auto simp: node_less_key)

lemma sorted_wrt_key: "sorted_wrt (\<lambda>x y. \<not> node_less y x) l \<longleftrightarrow> sorted (map order_key l)"
  by (simp add: not_node_less_key sorted_map)

lemma mset_insert_node: "mset (insert_node x l) = add_mset x (mset l)"
  by (induction l) auto

lemma mset_sort_Nodes: "mset (sort_Nodes l) = mset l"
  by (induction l) (simp_all add: sort_Nodes_def mset_insert_node)

lemma sorted_insert_node:
  "sorted (map order_key l) \<Longrightarrow> sorted (map order_key (insert_node x l))"
  by (induction l) (auto simp: set_insert_node node_less_key)

lemma sorted_sort_Nodes: "sorted (map order_key (sort_Nodes l))"
  by (induction l) (simp_all add: sort_Nodes_def sorted_insert_node)

lemma sorted_keys_unique:
  assumes "mset l' = mset l" "sorted (map order_key l')"
  shows "map order_key l' = map order_key (sort_Nodes l)"
proof -
  have e1: "mset (map order_key l') = mset (map order_key l)"
    using assms(1) by (metis mset_map)
  have a: "sort (map order_key l) = map order_key l'"
    using e1 assms(2) by (rule properties_for_sort)
  have e2: "mset (map order_key (sort_Nodes l)) = mset (map order_key l)"
    by (metis mset_map mset_sort_Nodes)
  have "sort (map order_key l) = map order_key (sort_Nodes l)"
    using e2 sorted_sort_Nodes by (rule properties_for_sort)
  with a show ?thesis by simp
qed

text \<open>
  Claim C5, as amended.  \<open>Less\<close> compares the server numbers and, when they are
  equal, the kind bytes: the lexicographic comparison of (server number, kind rank)
  with Host < Management < Network < Virtual < Failover.  It is irreflexive and
  transitive, and two nodes are left unordered exactly when they agree in server number
  and kind; so it is a strict weak order, which orders two different nodes of one server
  and kind in neither direction.  Sorting gives a rearrangement of the list that is
  ordered by \<open>Less\<close>, and every ordered rearrangement has the same sequence of
  (server number, kind) pairs.  So for every sort that returns an ordered rearrangement
  of its argument, whether stable or not, sorting twice gives the same sequence of
  (server number, kind) pairs as sorting once; the order among nodes of one server and
  kind is not determined, and nothing is stated about it.
\<close>

theorem node_order:
  "(node_less a b \<longleftrightarrow>
      Server_number a < Server_number b \<or>
      Server_number a = Server_number b \<and> Kind_byte (Kind a) < Kind_byte (Kind b)) \<and>
   Less ns i j = node_less (ns ! i) (ns ! j) \<and>
   Kind_byte KindHost < Kind_byte KindManagement \<and> Kind_byte KindManagement < Kind_byte KindNetwork \<and>
   Kind_byte KindNetwork < Kind_byte KindVirtual \<and> Kind_byte KindVirtual < Kind_byte KindFailover \<and>
   \<not> node_less a a \<and>
   (node_less a b \<and> node_less b c \<longrightarrow> node_less a c) \<and>
   (\<not> node_less a b \<and> \<not> node_less b a \<longleftrightarrow>
      Server_number a = Server_number b \<and> Kind a = Kind b) \<and>
   mset (sort_Nodes l) = mset l \<and>
   sorted_wrt (\<lambda>x y. \<not> node_less y x) (sort_Nodes l) \<and>
   (\<forall>l'. mset l' = mset l \<and> sorted_wrt (\<lambda>x y. \<not> node_less y x) l' \<longrightarrow>
      map order_key l' = map order_key (sort_Nodes l)) \<and>
   (\<forall>srt. (\<forall>xs. mset (srt xs) = mset xs \<and> sorted_wrt (\<lambda>x y. \<not> node_less y x) (srt xs)) \<longrightarrow>
      map order_key (srt (srt l)) = map order_key (srt l))"
proof -
  have inj: "Kind_byte x = Kind_byte y \<longleftrightarrow> x = y" for x y
    by (cases x; cases y) simp_all
  have 1: "node_less a b \<longleftrightarrow>
      Server_number a < Server_number b \<or>
      Server_number a = Server_number b \<and> Kind_byte (Kind a) < Kind_byte (Kind b)"
    by (auto simp: node_less_def)
  have 2: "node_less a b \<and> node_less b c \<longrightarrow> node_less a c"
    by (auto simp: node_less_key)
  have 3: "\<not> node_less a b \<and> \<not> node_less b a \<longleftrightarrow>
      Server_number a = Server_number b \<and> Kind a = Kind b"
    using inj[of "Kind a" "Kind b"] by (auto simp: node_less_def)
  have 4: "sorted_wrt (\<lambda>x y. \<not> node_less y x) (sort_Nodes l)"
    by (simp add: sorted_wrt_key sorted_sort_Nodes)
  have 5: "\<forall>l'. mset l' = mset l \<and> sorted_wrt (\<lambda>x y. \<not> node_less y x) l' \<longrightarrow>
      map order_key l' = map order_key (sort_Nodes l)"
    by (simp add: sorted_wrt_key sorted_keys_unique)
  have 6: "\<forall>srt. (\<forall>xs. mset (srt xs) = mset xs \<and> sorted_wrt (\<lambda>x y. \<not> node_less y x) (srt xs)) \<longrightarrow>
      map order_key (srt (srt l)) = map order_key (srt l)"
  proof (intro allI impI)
    fix srt :: "Node list \<Rightarrow> Node list"
    assume c: "\<forall>xs. mset (srt xs) = mset xs \<and> sorted_wrt (\<lambda>x y. \<not> node_less y x) (srt xs)"
    then have m1: "mset (srt l) = mset l" and s1: "sorted (map order_key (srt l))"
      by (simp_all add: sorted_wrt_key)
    from c have "mset (srt (srt l)) = mset (srt l)" and s2: "sorted (map order_key (srt (srt l)))"
      by (simp_all add: sorted_wrt_key)
    with m1 have m2: "mset (srt (srt l)) = mset l" by simp
    from sorted_keys_unique[OF m2 s2] sorted_keys_unique[OF m1 s1]
    show "map order_key (srt (srt l)) = map order_key (srt l)" by simp
  qed
  have 7: "\<not> node_less a a" by (simp add: node_less_def)
  have 8: "Less ns i j = node_less (ns ! i) (ns ! j)" by (simp add: Less_def)
  have 9: "Kind_byte KindHost < Kind_byte KindManagement"
    "Kind_byte KindManagement < Kind_byte KindNetwork"
    "Kind_byte KindNetwork < Kind_byte KindVirtual"
    "Kind_byte KindVirtual < Kind_byte KindFailover"
    by simp_all
  have 10: "mset (sort_Nodes l) = mset l" by (rule mset_sort_Nodes)
  show ?thesis
    by (intro conjI) (fact 1 2 3 4 5 6 7 8 9 10)+
qed

theorem node_order_witness:
  "node_less (host_node ex_server) ((host_node ex_server)\<lparr> Kind := KindManagement \<rparr>) \<and>
   node_less ((host_node ex_server)\<lparr> Kind := KindManagement \<rparr>)
             ((host_node ex_server)\<lparr> Kind := KindVirtual \<rparr>) \<and>
   node_less (host_node ex_server) ((host_node ex_server)\<lparr> Kind := KindVirtual \<rparr>) \<and>
   map order_key (sort_Nodes (sort_Nodes [(host_node ex_server)\<lparr> Kind := KindVirtual \<rparr>, host_node ex_server])) =
     map order_key (sort_Nodes [(host_node ex_server)\<lparr> Kind := KindVirtual \<rparr>, host_node ex_server])"
proof -
  let ?h = "host_node ex_server"
  let ?m = "(host_node ex_server)\<lparr> Kind := KindManagement \<rparr>"
  let ?v = "(host_node ex_server)\<lparr> Kind := KindVirtual \<rparr>"
  note t = node_order[where a = ?h and b = ?m and c = ?v and l = "[?v, ?h]"]
  have c: "\<forall>xs. mset (sort_Nodes xs) = mset xs \<and> sorted_wrt (\<lambda>x y. \<not> node_less y x) (sort_Nodes xs)"
    by (simp add: mset_sort_Nodes sorted_wrt_key sorted_sort_Nodes)
  have hm: "node_less ?h ?m" and mv: "node_less ?m ?v"
    by (simp_all add: node_less_def host_node_frame)
  from t hm mv have hv: "node_less ?h ?v" by blast
  from t c have "map order_key (sort_Nodes (sort_Nodes [?v, ?h])) = map order_key (sort_Nodes [?v, ?h])"
    by blast
  with hm mv hv show ?thesis by blast
qed

text \<open>
  Claim C5 as stated fails: the result for one server with two additional addresses
  holds two different nodes of kind Management with the same server number, and
  \<open>Less\<close> orders them in neither direction, so the order is not total on the nodes
  of the result.
\<close>

theorem node_order_not_total:
  "\<exists>l. getHetznerData [ex_server] [ex_ip 2 1, ex_ip 3 1] [] [] [] = Inr l \<and>
     (\<exists>a\<in>set l. \<exists>b\<in>set l. a \<noteq> b \<and> \<not> node_less a b \<and> \<not> node_less b a)"
  by (simp add: getHetznerData_def build_nodes_def ex_eval sort_Nodes_def node_less_def IPv4_inject)

section \<open>The identities of the nodes\<close>

lemma digit_char_no_slash: "d < 16 \<Longrightarrow> digit_char d \<noteq> CHR ''/''"
proof -
  assume "d < 16"
  then have "digit_char d \<in> set ''0123456789abcdef''"
    unfolding digit_char_def by (intro nth_mem) simp
  then show ?thesis by auto
qed

lemma uitoa_no_slash: "CHR ''/'' \<notin> set (uitoa n)"
proof (induction n rule: uitoa.induct)
  case (1 n)
  show ?case
  proof (cases "n < 10")
    case True
    then have "uitoa n = [digit_char n]" by simp
    with True show ?thesis using digit_char_no_slash[of n] by simp
  next
    case False
    then have "uitoa n = uitoa (n div 10) @ [digit_char (n mod 10)]" by simp
    moreover have "digit_char (n mod 10) \<noteq> CHR ''/''" by (rule digit_char_no_slash) simp
    ultimately show ?thesis using 1 False by (simp del: uitoa.simps)
  qed
qed

lemma hex_text_no_slash: "CHR ''/'' \<notin> set (hex_text n)"
proof (induction n rule: hex_text.induct)
  case (1 n)
  show ?case
  proof (cases "n < 16")
    case True
    then have "hex_text n = [digit_char n]" by simp
    with True show ?thesis using digit_char_no_slash[of n] by simp
  next
    case False
    then have "hex_text n = hex_text (n div 16) @ [digit_char (n mod 16)]" by simp
    moreover have "digit_char (n mod 16) \<noteq> CHR ''/''" by (rule digit_char_no_slash) simp
    ultimately show ?thesis using 1 False by (simp del: hex_text.simps)
  qed
qed

lemma hexString_no_slash: "CHR ''/'' \<notin> set (hexString b)"
proof -
  have hi: "digit_char (unat x div 16) \<noteq> CHR ''/''" for x :: byte
  proof (rule digit_char_no_slash)
    have "unat x < 256" using unsigned_less[of x, where ?'a = nat] by simp
    then show "unat x div 16 < 16" by simp
  qed
  have lo: "digit_char (unat x mod 16) \<noteq> CHR ''/''" for x :: byte
    by (rule digit_char_no_slash) simp
  show ?thesis
    using hi lo by (auto simp: hexString_def) metis+
qed

lemma join_with_no_slash:
  "CHR ''/'' \<notin> set sep \<Longrightarrow> \<forall>x\<in>set xs. CHR ''/'' \<notin> set x \<Longrightarrow> CHR ''/'' \<notin> set (join_with sep xs)"
  by (induction sep xs rule: join_with.induct) auto

lemma ip6_text_no_slash: "CHR ''/'' \<notin> set (ip6_text gs)"
proof -
  have a: "CHR ''/'' \<notin> set (join_with '':'' (map hex_text xs))" for xs
    by (rule join_with_no_slash) (auto simp: hex_text_no_slash simp del: hex_text.simps)
  show ?thesis
    by (auto simp: ip6_text_def a split: prod.splits)
qed

lemma dotted_no_slash: "CHR ''/'' \<notin> set (dotted p)"
  unfolding dotted_def
  by (rule join_with_no_slash) (auto simp: uitoa_no_slash simp del: uitoa.simps)

lemma IP_String_no_slash: "CHR ''/'' \<notin> set (IP_String ip)"
  by (simp add: IP_String_def dotted_no_slash ip6_text_no_slash hexString_no_slash)

lemma To4_length: "To4 ip \<noteq> [] \<Longrightarrow> length (To4 ip) = 4 \<and> ip \<noteq> []"
  by (auto simp: To4_def IPv4len_def IPv6len_def split: if_splits)

lemma IP_String_To4: "To4 ip \<noteq> [] \<Longrightarrow> IP_String (To4 ip) = IP_String ip"
proof -
  assume a: "To4 ip \<noteq> []"
  then have l: "length (To4 ip) = 4" "ip \<noteq> []" using To4_length by blast+
  then have "To4 (To4 ip) = To4 ip" by (simp add: To4_def[of "To4 ip"] IPv4len_def)
  then have "IP_String (To4 ip) = dotted (To4 ip)"
    using l by (simp add: IP_String_def[of "To4 ip"] IPv4len_def)
  moreover have "IP_String ip = dotted (To4 ip)"
    using l by (simp add: IP_String_def[of ip] IPv4len_def)
  ultimately show ?thesis by simp
qed

lemma IPNet_String_form:
  assumes "IPNet_String \<lparr> IP = ip, Mask = mk \<rparr> \<noteq> ''<nil>''"
  shows "\<exists>suf. IPNet_String \<lparr> IP = ip, Mask = mk \<rparr> = IP_String ip @ CHR ''/'' # suf"
proof -
  obtain nn m where nm: "networkNumberAndMask \<lparr> IP = ip, Mask = mk \<rparr> = (nn, m)"
    by (cases "networkNumberAndMask \<lparr> IP = ip, Mask = mk \<rparr>")
  with assms have ne: "nn \<noteq> []" "m \<noteq> []"
    by (auto simp: IPNet_String_def)
  from nm ne have "nn = (if To4 ip = [] then ip else To4 ip)"
    by (auto simp: networkNumberAndMask_def Let_def split: if_splits)
  then have "IP_String nn = IP_String ip"
    by (simp add: IP_String_To4)
  with nm ne show ?thesis
    by (auto simp: IPNet_String_def split: option.splits)
qed

lemma slash_split:
  "c \<notin> set xs \<Longrightarrow> c \<notin> set ys \<Longrightarrow> xs @ c # s = ys @ c # t \<Longrightarrow> xs = ys"
proof (induction xs arbitrary: ys)
  case Nil
  then show ?case by (cases ys) auto
next
  case (Cons x xs)
  then show ?case by (cases ys) auto
qed

lemma distinct_map_transfer:
  assumes "distinct (map g xs)" and "\<And>a b. a \<in> set xs \<Longrightarrow> b \<in> set xs \<Longrightarrow> f a = f b \<Longrightarrow> g a = g b"
  shows "distinct (map f xs)"
proof -
  from assms(1) have d: "distinct xs" and i: "inj_on g (set xs)" by (simp_all add: distinct_map)
  have "inj_on f (set xs)"
    by (rule inj_onI) (meson assms(2) i inj_onD)
  with d show ?thesis by (simp add: distinct_map)
qed

lemma distinct_map_sort_Nodes: "distinct (map f (sort_Nodes l)) \<longleftrightarrow> distinct (map f l)"
proof -
  have "mset (map f (sort_Nodes l)) = mset (map f l)"
    by (metis mset_map mset_sort_Nodes)
  then show ?thesis by (rule mset_eq_imp_distinct_iff)
qed

lemma identity_key:
  assumes "subnet_ok a" "subnet_ok b"
    and "Kind a = KindNetwork \<longrightarrow> identity a \<noteq> ''<nil>''"
    and "Kind b = KindNetwork \<longrightarrow> identity b \<noteq> ''<nil>''"
    and "identity a = identity b"
  shows "IP_String (Ip a) = IP_String (Ip b)"
proof -
  have form: "\<exists>suf. identity n = IP_String (Ip n) @ CHR ''/'' # suf"
    if "subnet_ok n" "Kind n = KindNetwork" "identity n \<noteq> ''<nil>''" for n
  proof -
    from that(1,2) obtain mk where "Subnet n = Some \<lparr> IP = Ip n, Mask = mk \<rparr>"
      by (auto simp: subnet_ok_def)
    with that(2,3) show ?thesis
      using IPNet_String_form[of "Ip n" mk] by (simp add: identity_def)
  qed
  show ?thesis
  proof (cases "Kind a = KindNetwork")
    case True
    with assms obtain s where a: "identity a = IP_String (Ip a) @ CHR ''/'' # s"
      using form[of a] by blast
    show ?thesis
    proof (cases "Kind b = KindNetwork")
      case T2: True
      with assms obtain t where b: "identity b = IP_String (Ip b) @ CHR ''/'' # t"
        using form[of b] by blast
      from a b assms(5) show ?thesis
        using slash_split[OF IP_String_no_slash IP_String_no_slash] by metis
    next
      case False
      then have "identity b = IP_String (Ip b)" by (simp add: identity_def)
      with a assms(5) have "CHR ''/'' \<in> set (IP_String (Ip b))" by (metis in_set_conv_decomp)
      then show ?thesis using IP_String_no_slash by blast
    qed
  next
    case False
    then have a: "identity a = IP_String (Ip a)" by (simp add: identity_def)
    show ?thesis
    proof (cases "Kind b = KindNetwork")
      case True
      with assms obtain t where b: "identity b = IP_String (Ip b) @ CHR ''/'' # t"
        using form[of b] by blast
      with a assms(5) have "CHR ''/'' \<in> set (IP_String (Ip a))" by (metis in_set_conv_decomp)
      then show ?thesis using IP_String_no_slash by blast
    next
      case F2: False
      then have "identity b = IP_String (Ip b)" by (simp add: identity_def)
      with a assms(5) show ?thesis by simp
    qed
  qed
qed

lemma keys_of_nodes:
  assumes "wf_nodes nodes"
  shows "map (\<lambda>n. IP_String (Ip n)) (map snd nodes) = map fst nodes"
proof -
  have "IP_String (Ip (snd p)) = fst p" if "p \<in> set nodes" for p
  proof -
    from that assms have "map_of nodes (fst p) = Some (snd p)" by (simp add: wf_nodes_def)
    with assms show ?thesis unfolding wf_nodes_def table_inv_def by blast
  qed
  then show ?thesis by simp
qed

text \<open>
  Claim C7, as amended.  In the result of a run, the texts of the addresses of the
  nodes, which are the keys of the map, are pairwise distinct, for nodes of every kind.
  With the text of the subnet as the identity of a node of kind Network, the identities
  are pairwise distinct as well, provided every such node has a subnet with a text, that
  is, a prefix length that is valid for its address.
\<close>

theorem identity_unique:
  assumes "getHetznerData rservers rips rsubnets rrdns rfailover = Inr l"
  shows "distinct (map (\<lambda>n. IP_String (Ip n)) l) \<and>
         ((\<forall>n\<in>set l. Kind n = KindNetwork \<longrightarrow> identity n \<noteq> ''<nil>'') \<longrightarrow>
            distinct (map identity l))"
proof -
  from assms obtain nodes where b: "build_nodes rservers rips rsubnets rrdns rfailover = Inr nodes"
    and l: "l = sort_Nodes (map snd nodes)"
    by (auto simp: getHetznerData_def split: sum.splits)
  from build_nodes_wf[OF b] have wf: "wf_nodes nodes" .
  then have "distinct (map (\<lambda>n. IP_String (Ip n)) (map snd nodes))"
    by (simp only: keys_of_nodes) (simp add: wf_nodes_def)
  then have 1: "distinct (map (\<lambda>n. IP_String (Ip n)) l)"
    unfolding l by (simp only: distinct_map_sort_Nodes)
  have ok: "subnet_ok n" if "n \<in> set l" for n
  proof -
    from that obtain k where "(k, n) \<in> set nodes" unfolding l set_sort_Nodes by auto
    with wf have "map_of nodes k = Some n" by (simp add: wf_nodes_def)
    with wf show ?thesis unfolding wf_nodes_def table_inv_def by blast
  qed
  have 2: "distinct (map identity l)"
    if v: "\<forall>n\<in>set l. Kind n = KindNetwork \<longrightarrow> identity n \<noteq> ''<nil>''"
    using 1
  proof (rule distinct_map_transfer)
    fix a b assume "a \<in> set l" "b \<in> set l" "identity a = identity b"
    with v ok show "IP_String (Ip a) = IP_String (Ip b)"
      by (intro identity_key) auto
  qed
  from 1 2 show ?thesis by blast
qed

lemma ex_cidr: "IPNet_String \<lparr> IP = IPv4 10 1 0 0, Mask = CIDRMask 24 32 \<rparr> = ''10.1.0.0/24''"
  by code_simp

lemma ex_cidr_bad: "IPNet_String \<lparr> IP = IPv4 10 c 0 0, Mask = CIDRMask 33 32 \<rparr> = ''<nil>''"
  by (simp add: IPNet_String_def networkNumberAndMask_def CIDRMask_def IPv4len_def IPv6len_def
      ex_to4 Let_def)

theorem identity_unique_witness:
  "\<exists>l. getHetznerData [ex_server] [ex_ip 2 1] [ex_subnet 1 24 1 False] [] [] = Inr l \<and>
     map identity l = [''10.0.0.1'', ''10.0.0.2'', ''10.1.0.0/24''] \<and>
     distinct (map (\<lambda>n. IP_String (Ip n)) l) \<and> distinct (map identity l)"
proof -
  have "\<exists>l. getHetznerData [ex_server] [ex_ip 2 1] [ex_subnet 1 24 1 False] [] [] = Inr l \<and>
     map identity l = [''10.0.0.1'', ''10.0.0.2'', ''10.1.0.0/24'']"
    by (simp add: getHetznerData_def build_nodes_def subnet_step_def ex_eval sort_Nodes_def
        node_less_def identity_def ex_to4 IPv4len_def ex_cidr)
  then obtain l where l: "getHetznerData [ex_server] [ex_ip 2 1] [ex_subnet 1 24 1 False] [] [] = Inr l"
    and i: "map identity l = [''10.0.0.1'', ''10.0.0.2'', ''10.1.0.0/24'']" by auto
  have "\<forall>n\<in>set l. identity n \<noteq> ''<nil>''"
  proof
    fix n assume "n \<in> set l"
    then have "identity n \<in> set (map identity l)" by simp
    then show "identity n \<noteq> ''<nil>''" unfolding i by auto
  qed
  with identity_unique[OF l] have "distinct (map (\<lambda>n. IP_String (Ip n)) l) \<and> distinct (map identity l)"
    by simp
  with l i show ?thesis by (intro exI[of _ l]) simp
qed

text \<open>
  Claim C7 as stated fails: with two subnet records whose prefix length 33 is not valid
  for an IPv4 address, the two nodes of kind Network both have the subnet text
  \<open><nil>\<close>, so the identities are not pairwise distinct.
\<close>

theorem identity_not_unique:
  "\<exists>l. getHetznerData [ex_server] [] [ex_subnet 1 33 1 False, ex_subnet 2 33 1 False] [] [] = Inr l \<and>
     \<not> distinct (map identity l)"
  by (simp add: getHetznerData_def build_nodes_def subnet_step_def ex_eval sort_Nodes_def
      node_less_def identity_def ex_to4 IPv4len_def ex_cidr_bad)

end
